theory Spec2Isabelle
  imports Main "HOL-Library.Word"
begin

unbundle bit_operations_syntax

section \<open>Machine types, errors and results\<close>

type_synonym u8 = "8 word"
type_synonym u16 = "16 word"
type_synonym u32 = "32 word"

text \<open>
  The functions of \<^verbatim>\<open>g_logstor.c\<close> report nothing but the errno \<^verbatim>\<open>EINVAL\<close> of
  \<^verbatim>\<open>superblock_read\<close>; every other failure is a tripped \<^verbatim>\<open>MY_ASSERT\<close>/\<^verbatim>\<open>MY_PANIC\<close> or
  undefined behaviour of C (a NULL or out-of-bounds access, a signed overflow, a read of
  a union through the member that was not written last).

  Modelled from the spec: the macros \<^verbatim>\<open>MY_ASSERT\<close> and \<^verbatim>\<open>MY_PANIC\<close> are defined in
  \<^verbatim>\<open>g_logstor.h\<close>, which is not among the sources. The spec reads them as programmer-error
  checks that end the operation with an internal error; so does the model
  (\<open>AssertFailed\<close>).

  A result is \<open>None\<close> when the code does not return (the \<^verbatim>\<open>goto again\<close> walk of
  \<^verbatim>\<open>seg_alloc\<close> has no bound), \<open>Some (Inl e)\<close> when it stops with \<open>e\<close>, and
  \<open>Some (Inr x)\<close> when it returns \<open>x\<close>.
\<close>

datatype error = AssertFailed | Undefined

type_synonym 'a res = "(error + 'a) option"

definition ok :: "'a \<Rightarrow> 'a res" where
  "ok x = Some (Inr x)"

definition fail :: "error \<Rightarrow> 'a res" where
  "fail e = Some (Inl e)"

definition bnd :: "'a res \<Rightarrow> ('a \<Rightarrow> 'b res) \<Rightarrow> 'b res" where
  "bnd m f = (case m of None \<Rightarrow> None | Some (Inl e) \<Rightarrow> Some (Inl e) | Some (Inr x) \<Rightarrow> f x)"

definition MY_ASSERT :: "bool \<Rightarrow> 'a res \<Rightarrow> 'a res" where
  "MY_ASSERT c k = (if c then k else fail AssertFailed)"

definition EINVAL :: int where
  "EINVAL = 22"

section \<open>Constants\<close>

text \<open>
  \<^verbatim>\<open>SECTOR_SIZE\<close> comes from \<^verbatim>\<open>g_logstor.h\<close>, which is not among the sources. The source
  fixes its value all the same: \<^verbatim>\<open>_Static_assert(sizeof(struct _seg_sum) - sizeof(struct
  _ss_soft) == SECTOR_SIZE)\<close> with \<^verbatim>\<open>ss_rm[SECTORS_PER_SEG - 1]\<close> of four bytes each and
  two 16-bit fields asks for \<open>4 * SECTORS_PER_SEG = SECTOR_SIZE\<close>, where
  \<^verbatim>\<open>SECTORS_PER_SEG\<close> is \<^verbatim>\<open>SEG_SIZE/SECTOR_SIZE\<close> (commented \<^verbatim>\<open>// 1024\<close>) and
  \<^verbatim>\<open>SEG_SIZE\<close> is \<^verbatim>\<open>0x400000\<close>. Lemma \<open>sector_size_forced\<close> below shows that 4096 is
  the only such value.
\<close>

definition SIG_LOGSTOR :: u32 where "SIG_LOGSTOR = 0x4C4F4753"
definition VER_MAJOR :: u8 where "VER_MAJOR = 0"
definition VER_MINOR :: u8 where "VER_MINOR = 1"

definition SEG_DATA_START :: int where "SEG_DATA_START = 1"
definition SEG_SIZE :: nat where "SEG_SIZE = 0x400000"
definition SECTOR_SIZE :: nat where "SECTOR_SIZE = 4096"
definition SECTORS_PER_SEG :: nat where "SECTORS_PER_SEG = SEG_SIZE div SECTOR_SIZE"
definition SEG_SUM_OFF :: nat where "SEG_SUM_OFF = SECTORS_PER_SEG - 1"
definition SA2SEGA_SHIFT :: nat where "SA2SEGA_SHIFT = 10"
definition BLOCKS_PER_SEG :: nat where "BLOCKS_PER_SEG = SEG_SIZE div SECTOR_SIZE - 1"
definition CLEAN_WINDOW :: nat where "CLEAN_WINDOW = 6"
definition CLEAN_AGE_LIMIT :: nat where "CLEAN_AGE_LIMIT = 4"

definition META_BASE :: u32 where "META_BASE = 0xC0000000"
definition META_INVALID :: u32 where "META_INVALID = 0"
definition SECTOR_NULL :: u32 where "SECTOR_NULL = 0"
definition SECTOR_DELETE :: u32 where "SECTOR_DELETE = 2"
definition META_LEAF_DEPTH :: nat where "META_LEAF_DEPTH = 2"
definition FILE_BUCKET_COUNT :: nat where "FILE_BUCKET_COUNT = 12899"

definition FD_BASE :: nat where "FD_BASE = 0"
definition FD_ACTIVE :: nat where "FD_ACTIVE = 1"
definition FD_DELTA :: nat where "FD_DELTA = 2"
definition FD_COUNT :: nat where "FD_COUNT = 3"

text \<open>\<^verbatim>\<open>sizeof(struct _superblock)\<close>: the fixed part, before \<^verbatim>\<open>seg_age[]\<close>.\<close>

definition SIZEOF_SUPERBLOCK :: nat where "SIZEOF_SUPERBLOCK = 40"

definition IS_META_ADDR :: "u32 \<Rightarrow> bool" where
  "IS_META_ADDR x \<longleftrightarrow> x AND META_BASE = META_BASE"

lemmas geometry_defs =
  SEG_DATA_START_def SEG_SIZE_def SECTOR_SIZE_def SECTORS_PER_SEG_def SEG_SUM_OFF_def
  SA2SEGA_SHIFT_def BLOCKS_PER_SEG_def SIZEOF_SUPERBLOCK_def FD_COUNT_def

section \<open>Data model\<close>

text \<open>
  A sector of the backing device and the payload of an fbuf are read here as
  \<^verbatim>\<open>SECTOR_SIZE/4\<close> 32-bit words, indexed from 0; the code indexes them only through the
  masks \<^verbatim>\<open>0x3ff\<close> and \<^verbatim>\<open>0xfff\<close>, so a function from the index is enough.
\<close>

type_synonym sector = "nat \<Rightarrow> u32"

record superblock =
  sig :: u32
  ver_major :: u8
  ver_minor :: u8
  sb_gen :: u16
  max_block_cnt :: u32
  seg_cnt :: int
  seg_free_cnt :: int
  seg_alloc_p :: int
  seg_reclaim_p :: int
  ftab :: "u32 list"

record seg_sum =
  ss_rm :: "nat \<Rightarrow> u32"
  ss_gen :: u16
  ss_alloc_p :: u16
  sega :: u32
  live_count :: u32

text \<open>
  The two write fronts; a \<^verbatim>\<open>struct _seg_sum *\<close> argument of the write path is one of
  \<^verbatim>\<open>&sc->seg_sum_hot\<close> and \<^verbatim>\<open>&sc->seg_sum_cold\<close>.
\<close>

datatype front = Hot | Cold

text \<open>
  Pointers to fbufs are indices into the array \<^verbatim>\<open>sc->fbuf\<close>; \<open>None\<close> is \<^verbatim>\<open>NULL\<close>. The
  entries \<^verbatim>\<open>cir_queue\<close> and \<^verbatim>\<open>indir_queue\<close> share their storage (a union): \<open>CirQ next
  prev\<close> is the storage after the circular-queue code wrote it, \<open>IndirQ\<close> after
  \<^verbatim>\<open>LIST_INSERT_HEAD\<close> put the fbuf on an indirect list. The \<^verbatim>\<open>LIST_*\<close> macros of
  \<^verbatim>\<open>sys/queue.h\<close> are lists of indices. \<open>buf_sa\<close> is the field \<^verbatim>\<open>sa\<close>, the sector address
  of the data: the source declares and assigns it under \<^verbatim>\<open>MY_DEBUG\<close>, and the assertion
  \<^verbatim>\<open>MY_ASSERT(buf->sa == sa)\<close> of \<^verbatim>\<open>fbuf_get\<close> reads it. Of the code under \<^verbatim>\<open>MY_DEBUG\<close> the
  model has this field and its two assignments.
\<close>

datatype qentry = CirQ nat nat | IndirQ

record fbuf =
  queue :: qentry
  ref_cnt :: u16
  on_cir_queue :: bool
  accessed :: bool
  modified :: bool
  parent :: "nat option"
  ma :: u32
  buf_sa :: u32
  data :: sector

text \<open>
  What the code does to the outside and the two map updates the ordering claims speak
  of, in the order in which they happen.
\<close>

datatype event =
    DataWrite u32 nat bool
  | SumWrite front u32
  | MetaWrite u32 u32
  | SbWrite u32
  | RmRecord front u32 nat u32
  | SegAlloc front u32
  | CleanCheck
  | FwdWrite nat u32 u32

record softc =
  seg_sum_cold :: seg_sum
  seg_sum_hot :: seg_sum
  cleaner_disabled :: u8
  clean_low_water :: u32
  clean_high_water :: u32
  fbuf_count :: int
  fbuf_modified_count :: int
  fbufs :: "fbuf list"
  fbuf_bucket :: "nat \<Rightarrow> nat list"
  cir_buffer_head :: "nat option"
  indirect_head :: "nat list list"
  data_write_count :: u32
  other_write_count :: u32
  fbuf_hit :: u32
  fbuf_miss :: u32
  sb_modified :: bool
  sb_sa :: u32
  seg_age :: "u8 list"
  superblock :: superblock
  mediasize :: int
  disk :: "u32 \<Rightarrow> sector"
  wr_fault :: "u32 \<Rightarrow> bool"
  io_log :: "event list"

definition front_sum :: "front \<Rightarrow> softc \<Rightarrow> seg_sum" where
  "front_sum f sc = (case f of Hot \<Rightarrow> seg_sum_hot sc | Cold \<Rightarrow> seg_sum_cold sc)"

definition front_upd :: "front \<Rightarrow> (seg_sum \<Rightarrow> seg_sum) \<Rightarrow> softc \<Rightarrow> softc" where
  "front_upd f g sc =
     (case f of Hot \<Rightarrow> sc\<lparr>seg_sum_hot := g (seg_sum_hot sc)\<rparr>
              | Cold \<Rightarrow> sc\<lparr>seg_sum_cold := g (seg_sum_cold sc)\<rparr>)"

definition log_ev :: "event \<Rightarrow> softc \<Rightarrow> softc" where
  "log_ev e sc = sc\<lparr>io_log := io_log sc @ [e]\<rparr>"

section \<open>Segment addresses\<close>

definition sega2sa :: "u32 \<Rightarrow> u32" where
  "sega2sa s = push_bit SA2SEGA_SHIFT s"

section \<open>Segment allocator\<close>

text \<open>
  \<^verbatim>\<open>seg_alloc\<close>, from the label \<^verbatim>\<open>again\<close> to the candidate that is taken. \<^verbatim>\<open>sega\<close> is
  the \<^verbatim>\<open>int32_t seg_alloc_p\<close> converted to \<^verbatim>\<open>uint32_t\<close>; \<^verbatim>\<open>++seg_alloc_p\<close> at
  \<^verbatim>\<open>INT_MAX\<close> is a signed overflow.
\<close>

partial_function (option) seg_alloc_again :: "softc \<Rightarrow> u32 \<Rightarrow> u32 \<Rightarrow> (error + u32 \<times> softc) option" where
  "seg_alloc_again sc sega_cold sega_hot =
     (let p = seg_alloc_p (superblock sc);
          s = (word_of_int p :: u32)
      in if 2 ^ 31 \<le> p + 1 then fail Undefined
         else
           let p' = (if p + 1 = seg_cnt (superblock sc) then SEG_DATA_START else p + 1);
               sc' = sc\<lparr>superblock := (superblock sc)\<lparr>seg_alloc_p := p'\<rparr>\<rparr>
           in if \<not> p' < seg_cnt (superblock sc) then fail AssertFailed
              else if \<not> p' + 1 \<noteq> seg_reclaim_p (superblock sc) then fail AssertFailed
              else if \<not> s \<noteq> sega_hot then fail AssertFailed
              else if s = sega_cold then seg_alloc_again sc' sega_cold sega_hot
              else if \<not> unat s < length (seg_age sc) then fail Undefined
              else if seg_age sc ! unat s \<noteq> 0 then seg_alloc_again sc' sega_cold sega_hot
              else ok (s, sc'))"

definition seg_alloc :: "softc \<Rightarrow> front \<Rightarrow> softc res" where
  "seg_alloc sc tgt =
     bnd (seg_alloc_again sc (sega (seg_sum_cold sc)) (sega (seg_sum_hot sc)))
       (\<lambda>(s, sc1).
          let sc2 = front_upd tgt (\<lambda>ss. ss\<lparr>sega := s, ss_alloc_p := 0\<rparr>) sc1;
              n = seg_free_cnt (superblock sc2) - 1;
              sc3 = log_ev (SegAlloc tgt s) (sc2\<lparr>superblock := (superblock sc2)\<lparr>seg_free_cnt := n\<rparr>\<rparr>)
          in if n < - (2 ^ 31) then fail Undefined
             else MY_ASSERT (0 < n \<and> n < seg_cnt (superblock sc2)) (ok sc3))"

section \<open>Backing device\<close>

text \<open>
  \<^verbatim>\<open>g_write_data\<close> of one sector: the errno and the device afterwards. A sector whose
  write fails keeps its content.
\<close>

definition EIO :: int where
  "EIO = 5"

definition dev_write :: "softc \<Rightarrow> u32 \<Rightarrow> sector \<Rightarrow> int \<times> softc" where
  "dev_write sc sa sec =
     (if wr_fault sc sa then (EIO, sc) else (0, sc\<lparr>disk := (disk sc)(sa := sec)\<rparr>))"

section \<open>Superblock manager\<close>

text \<open>
  The sector as \<^verbatim>\<open>struct _superblock\<close> (little-endian, as the on-disk layout of the spec
  has it): the fixed part is the first ten words, \<^verbatim>\<open>seg_age[]\<close> follows bytewise.
\<close>

definition sb_view :: "sector \<Rightarrow> superblock" where
  "sb_view w =
     \<lparr>sig = w 0, ver_major = ucast (w 1), ver_minor = ucast (drop_bit 8 (w 1)),
      sb_gen = ucast (drop_bit 16 (w 1)), max_block_cnt = w 2,
      seg_cnt = sint (w 3), seg_free_cnt = sint (w 4), seg_alloc_p = sint (w 5),
      seg_reclaim_p = sint (w 6), ftab = [w 7, w 8, w 9]\<rparr>"

definition seg_age_view :: "sector \<Rightarrow> nat \<Rightarrow> u8 list" where
  "seg_age_view w n = map (\<lambda>k. ucast (drop_bit (8 * (k mod 4)) (w (10 + k div 4)))) [0..<n]"

definition age_byte :: "u8 list \<Rightarrow> nat \<Rightarrow> u32" where
  "age_byte ages k = (if k < length ages then ucast (ages ! k) else 0)"

text \<open>
  The sector that \<^verbatim>\<open>superblock_init\<close> and \<^verbatim>\<open>superblock_write\<close> build in \<^verbatim>\<open>buf\<close>: the
  two \<^verbatim>\<open>memcpy\<close>s. The rest of the stack buffer is not initialised by the code; it is
  zero here.
\<close>

definition sb_image :: "superblock \<Rightarrow> u8 list \<Rightarrow> sector" where
  "sb_image sb ages i =
     (if i = 0 then sig sb
      else if i = 1 then ucast (ver_major sb) OR push_bit 8 (ucast (ver_minor sb))
                          OR push_bit 16 (ucast (sb_gen sb))
      else if i = 2 then max_block_cnt sb
      else if i = 3 then word_of_int (seg_cnt sb)
      else if i = 4 then word_of_int (seg_free_cnt sb)
      else if i = 5 then word_of_int (seg_alloc_p sb)
      else if i = 6 then word_of_int (seg_reclaim_p sb)
      else if i < 10 then ftab sb ! (i - 7)
      else age_byte ages (4 * (i - 10)) OR push_bit 8 (age_byte ages (4 * (i - 10) + 1))
           OR push_bit 16 (age_byte ages (4 * (i - 10) + 2))
           OR push_bit 24 (age_byte ages (4 * (i - 10) + 3)))"

text \<open>
  \<^verbatim>\<open>g_logstor_read_superblock\<close> and \<^verbatim>\<open>g_logstor_write_superblock\<close>: the transfer of one
  superblock sector and the assertion \<^verbatim>\<open>MY_ASSERT(error != 0)\<close> that follows it. The
  device of the model grants every access and reads every sector, so \<^verbatim>\<open>error\<close> is 0 after
  a read; after a write it is the errno of \<open>dev_write\<close>. The result is \<^verbatim>\<open>error\<close> with the
  sector that was read, or with the state after the write.
\<close>

definition g_logstor_read_superblock :: "softc \<Rightarrow> u32 \<Rightarrow> (int \<times> sector) res" where
  "g_logstor_read_superblock sc sa =
     (let error = (0 :: int) in MY_ASSERT (error \<noteq> 0) (ok (error, disk sc sa)))"

definition g_logstor_write_superblock :: "softc \<Rightarrow> u32 \<Rightarrow> sector \<Rightarrow> (int \<times> softc) res" where
  "g_logstor_write_superblock sc sa sec =
     (let (error, sc1) = dev_write sc sa sec in MY_ASSERT (error \<noteq> 0) (ok (error, sc1)))"

text \<open>
  \<^verbatim>\<open>superblock_init\<close>. \<open>rnd\<close> is the value of \<^verbatim>\<open>arc4random()\<close>. The product with the
  double \<^verbatim>\<open>0.9\<close> is truncated back to \<^verbatim>\<open>uint32_t\<close>; below \<open>2^32\<close> that is
  \<open>9 * x div 10\<close>. \<^verbatim>\<open>sc->seg_age == NULL\<close> is the empty list. \<open>superblock_init_via W\<close> is
  the function with \<open>W\<close> where it calls \<^verbatim>\<open>g_logstor_write_superblock\<close>; the errno that
  comes back is dropped by the code.
\<close>

definition superblock_init_via ::
  "(softc \<Rightarrow> u32 \<Rightarrow> sector \<Rightarrow> (int \<times> softc) res) \<Rightarrow> softc \<Rightarrow> int \<Rightarrow> u32 \<Rightarrow> (u32 \<times> softc) res" where
  "superblock_init_via W sc media_size rnd =
     (let sector_cnt = (word_of_int (media_size div int SECTOR_SIZE) :: u32);
          cnt = int (unat sector_cnt div SECTORS_PER_SEG);
          free = cnt - SEG_DATA_START;
          overhead = (sector_cnt div of_nat (SECTOR_SIZE div 4)) * of_nat FD_COUNT;
          blocks = (word_of_int (free * int BLOCKS_PER_SEG) :: u32) - overhead;
          sb = \<lparr>sig = SIG_LOGSTOR, ver_major = VER_MAJOR, ver_minor = VER_MINOR,
                sb_gen = ucast rnd,
                max_block_cnt = of_nat (unat blocks * 9 div 10),
                seg_cnt = cnt, seg_free_cnt = free,
                seg_alloc_p = SEG_DATA_START, seg_reclaim_p = SEG_DATA_START,
                ftab = replicate FD_COUNT SECTOR_NULL\<rparr>
      in MY_ASSERT (int SIZEOF_SUPERBLOCK + cnt < int SECTOR_SIZE)
           (MY_ASSERT (overhead < word_of_int (free * int BLOCKS_PER_SEG))
              (if seg_age sc \<noteq> [] \<and> length (seg_age sc) < nat cnt then fail Undefined
               else
                 let ages = replicate (nat cnt) 0 @ drop (nat cnt) (seg_age sc)
                 in bnd (W (sc\<lparr>superblock := sb, seg_age := ages, sb_sa := 0\<rparr>) 0
                           (sb_image sb (take (nat cnt) ages))) (\<lambda>(error, sc1).
                    ok (max_block_cnt sb, log_ev (SbWrite 0) (sc1\<lparr>sb_modified := False\<rparr>))))))"

definition superblock_init :: "softc \<Rightarrow> int \<Rightarrow> u32 \<Rightarrow> (u32 \<times> softc) res" where
  "superblock_init = superblock_init_via g_logstor_write_superblock"

text \<open>
  The \<^verbatim>\<open>for\<close> loop of \<^verbatim>\<open>superblock_read\<close> over sectors that are at hand (\<open>d\<close>): the
  value of \<^verbatim>\<open>i\<close> when the loop is left. \<open>g\<close> is the local \<^verbatim>\<open>sb_gen\<close>;
  \<^verbatim>\<open>(uint16_t)(sb_gen + 1)\<close> is the successor in 16 bits.
\<close>

function sb_probe :: "(u32 \<Rightarrow> sector) \<Rightarrow> nat \<Rightarrow> u16 \<Rightarrow> nat" where
  "sb_probe d i g =
     (if i < SECTORS_PER_SEG then
        (let sb = sb_view (d (of_nat i))
         in if sig sb \<noteq> SIG_LOGSTOR then i
            else if sb_gen sb \<noteq> g + 1 then i
            else sb_probe d (Suc i) (sb_gen sb))
      else i)"
  by pat_completeness auto
termination
  by (relation "measure (\<lambda>(d, i, g). SECTORS_PER_SEG - i)") auto

declare sb_probe.simps [simp del]

definition sb_invalid :: "superblock \<Rightarrow> bool" where
  "sb_invalid sb \<longleftrightarrow>
     sig sb \<noteq> SIG_LOGSTOR \<or> seg_cnt sb \<le> seg_alloc_p sb \<or> seg_cnt sb \<le> seg_reclaim_p sb"

text \<open>
  The \<^verbatim>\<open>for\<close> loop of \<^verbatim>\<open>superblock_read\<close> with its transfers, \<open>R\<close> standing where the
  code calls \<^verbatim>\<open>g_logstor_read_superblock\<close>: the value of \<^verbatim>\<open>i\<close> when the loop is left and
  the content of \<^verbatim>\<open>buf[(i-1)%2]\<close>, which is the sector accepted last (\<open>prev\<close>).
\<close>

function sb_probe_via ::
  "(softc \<Rightarrow> u32 \<Rightarrow> (int \<times> sector) res) \<Rightarrow> softc \<Rightarrow> nat \<Rightarrow> u16 \<Rightarrow> sector \<Rightarrow> (nat \<times> sector) res" where
  "sb_probe_via R sc i g prev =
     (if i < SECTORS_PER_SEG then
        bnd (R sc (of_nat i)) (\<lambda>(error, b).
          if sig (sb_view b) \<noteq> SIG_LOGSTOR then ok (i, prev)
          else if sb_gen (sb_view b) \<noteq> g + 1 then ok (i, prev)
          else sb_probe_via R sc (Suc i) (sb_gen (sb_view b)) b)
      else ok (i, prev))"
  by pat_completeness auto
termination
  by (relation "measure (\<lambda>(R, sc, i, g, prev). SECTORS_PER_SEG - i)") auto

declare sb_probe_via.simps [simp del]

text \<open>
  \<^verbatim>\<open>superblock_read\<close>: the \<^verbatim>\<open>int\<close> it returns and the state it leaves. The last
  \<^verbatim>\<open>memcpy\<close> copies \<^verbatim>\<open>seg_cnt\<close> bytes out of the sector buffer into \<^verbatim>\<open>sc->seg_age\<close>.
  \<open>superblock_read_via R\<close> is the function with \<open>R\<close> where it calls
  \<^verbatim>\<open>g_logstor_read_superblock\<close>; the errno that comes back is dropped by the code.
\<close>

definition superblock_read_via ::
  "(softc \<Rightarrow> u32 \<Rightarrow> (int \<times> sector) res) \<Rightarrow> softc \<Rightarrow> (int \<times> softc) res" where
  "superblock_read_via R sc =
     bnd (R sc 0) (\<lambda>(error, b0).
       let sb0 = sb_view b0
       in if sb_invalid sb0 then ok (EINVAL, sc\<lparr>superblock := sb0\<rparr>)
          else
            bnd (sb_probe_via R sc 1 (sb_gen sb0) b0) (\<lambda>(i, sec).
              let sb_in = sb_view sec;
                  sc1 = sc\<lparr>sb_sa := of_nat (i - 1), superblock := sb_in, sb_modified := False\<rparr>
              in if sb_invalid sb_in then ok (EINVAL, sc1)
                 else if seg_cnt sb_in < 0 \<or> int SECTOR_SIZE < int SIZEOF_SUPERBLOCK + seg_cnt sb_in
                         \<or> (seg_age sc \<noteq> [] \<and> length (seg_age sc) < nat (seg_cnt sb_in))
                      then fail Undefined
                 else ok (0, sc1\<lparr>seg_age := seg_age_view sec (nat (seg_cnt sb_in))
                                               @ drop (nat (seg_cnt sb_in)) (seg_age sc)\<rparr>)))"

definition superblock_read :: "softc \<Rightarrow> (int \<times> softc) res" where
  "superblock_read = superblock_read_via g_logstor_read_superblock"

text \<open>\<^verbatim>\<open>superblock_write\<close>; the errno of \<^verbatim>\<open>g_write_data\<close> is dropped by the code.\<close>

definition superblock_write :: "softc \<Rightarrow> softc" where
  "superblock_write sc =
     (let sb = (superblock sc)\<lparr>sb_gen := sb_gen (superblock sc) + 1\<rparr>;
          sa = (if sb_sa sc + 1 = of_nat SECTORS_PER_SEG then 0 else sb_sa sc + 1);
          (e, sc1) = dev_write (sc\<lparr>superblock := sb, sb_sa := sa\<rparr>) sa
                       (sb_image sb (take (nat (seg_cnt sb)) (seg_age sc)))
      in log_ev (SbWrite sa) (sc1\<lparr>other_write_count := other_write_count sc1 + 1\<rparr>))"

section \<open>Segment summary I/O\<close>

text \<open>The sector of a segment summary: \<^verbatim>\<open>ss_rm\<close>, then \<^verbatim>\<open>ss_gen\<close> and \<^verbatim>\<open>ss_alloc_p\<close>.\<close>

definition ss_image :: "seg_sum \<Rightarrow> sector" where
  "ss_image ss i =
     (if i < SECTORS_PER_SEG - 1 then ss_rm ss i
      else ucast (ss_gen ss) OR push_bit 16 (ucast (ss_alloc_p ss)))"

definition seg_sum_write :: "softc \<Rightarrow> front \<Rightarrow> softc" where
  "seg_sum_write sc f =
     (let sa = sega2sa (sega (front_sum f sc)) + of_nat SEG_SUM_OFF;
          sc1 = front_upd f (\<lambda>ss. ss\<lparr>ss_gen := sb_gen (superblock sc)\<rparr>) sc;
          (e, sc2) = dev_write sc1 sa (ss_image (front_sum f sc1))
      in log_ev (SumWrite f sa) (sc2\<lparr>other_write_count := other_write_count sc2 + 1\<rparr>))"

section \<open>The fbuf pool\<close>

definition fbuf_hash_insert :: "softc \<Rightarrow> nat \<Rightarrow> nat \<Rightarrow> softc" where
  "fbuf_hash_insert sc b key =
     sc\<lparr>fbuf_bucket := (fbuf_bucket sc)
           (key mod FILE_BUCKET_COUNT := b # fbuf_bucket sc (key mod FILE_BUCKET_COUNT))\<rparr>"

text \<open>
  \<^verbatim>\<open>file_mod_init\<close>. The product with \<^verbatim>\<open>fbuf_ratio = 1.0\<close> changes nothing. The loop
  links fbuf \<open>i\<close> to \<open>i - 1\<close> and \<open>i + 1\<close> and the two statements after it close the
  circle; with no fbuf at all they write to \<^verbatim>\<open>sc->fbuf[0]\<close> of an empty array.
\<close>

definition fbuf_zero :: "nat \<Rightarrow> nat \<Rightarrow> fbuf" where
  "fbuf_zero n i =
     \<lparr>queue = CirQ (if Suc i = n then 0 else Suc i) (if i = 0 then n - 1 else i - 1),
      ref_cnt = 0, on_cir_queue = True, accessed = False, modified = False,
      parent = None, ma = META_INVALID, buf_sa = 0, data = (\<lambda>_. 0)\<rparr>"

definition file_mod_init :: "softc \<Rightarrow> softc res" where
  "file_mod_init sc =
     (let n = unat (max_block_cnt (superblock sc)) div (SECTOR_SIZE div 4);
          sc1 = sc\<lparr>fbuf_hit := 0, fbuf_miss := 0, fbuf_count := int n,
                   fbuf_modified_count := 0, fbuf_bucket := (\<lambda>_. []),
                   fbufs := map (fbuf_zero n) [0..<n]\<rparr>;
          sc2 = fold (\<lambda>i s. fbuf_hash_insert s i i) [0..<n] sc1
      in if n = 0 then fail Undefined
         else ok (sc2\<lparr>cir_buffer_head := Some 0,
                      indirect_head := replicate META_LEAF_DEPTH []\<rparr>))"

section \<open>Open\<close>

text \<open>
  \<^verbatim>\<open>logstor_open\<close>; \<open>logstor_open_via R W\<close> is the function with \<open>R\<close> and \<open>W\<close> where
  \<^verbatim>\<open>superblock_read\<close> and \<^verbatim>\<open>superblock_init\<close> call the two transfers.
\<close>

definition logstor_open_via ::
  "(softc \<Rightarrow> u32 \<Rightarrow> (int \<times> sector) res) \<Rightarrow> (softc \<Rightarrow> u32 \<Rightarrow> sector \<Rightarrow> (int \<times> softc) res)
     \<Rightarrow> softc \<Rightarrow> u32 \<Rightarrow> (int \<times> softc) res" where
  "logstor_open_via R W sc rnd =
     bnd (superblock_read_via R sc) (\<lambda>(rc, sc1).
     bnd (if rc \<noteq> 0 then bnd (superblock_init_via W sc1 (mediasize sc1) rnd) (\<lambda>(m, s). ok s)
          else ok sc1) (\<lambda>sc2.
     bnd (seg_alloc sc2 Cold) (\<lambda>sc3.
     bnd (seg_alloc sc3 Hot) (\<lambda>sc4.
     bnd (file_mod_init
            (sc4\<lparr>data_write_count := 0, other_write_count := 0,
                 clean_low_water := of_nat (CLEAN_WINDOW * 2),
                 clean_high_water := of_nat (CLEAN_WINDOW * 2) + of_nat (CLEAN_WINDOW * 2)\<rparr>))
       (\<lambda>sc5. ok (0, sc5))))))"

definition logstor_open :: "softc \<Rightarrow> u32 \<Rightarrow> (int \<times> softc) res" where
  "logstor_open = logstor_open_via g_logstor_read_superblock g_logstor_write_superblock"

text \<open>
  The soft state as \<^verbatim>\<open>g_malloc(sizeof(*sc), M_WAITOK | M_ZERO)\<close> of
  \<^verbatim>\<open>g_logstor_create\<close> leaves it, attached to a device of \<open>m\<close> bytes with content \<open>d\<close>.
\<close>

definition seg_sum_zero :: seg_sum where
  "seg_sum_zero = \<lparr>ss_rm = (\<lambda>_. 0), ss_gen = 0, ss_alloc_p = 0, sega = 0, live_count = 0\<rparr>"

definition softc_zero :: "int \<Rightarrow> (u32 \<Rightarrow> sector) \<Rightarrow> (u32 \<Rightarrow> bool) \<Rightarrow> softc" where
  "softc_zero m d flt =
     \<lparr>seg_sum_cold = seg_sum_zero, seg_sum_hot = seg_sum_zero, cleaner_disabled = 0,
      clean_low_water = 0, clean_high_water = 0, fbuf_count = 0, fbuf_modified_count = 0,
      fbufs = [], fbuf_bucket = (\<lambda>_. []), cir_buffer_head = None, indirect_head = [[], []],
      data_write_count = 0, other_write_count = 0, fbuf_hit = 0, fbuf_miss = 0,
      sb_modified = False, sb_sa = 0, seg_age = [],
      superblock = \<lparr>sig = 0, ver_major = 0, ver_minor = 0, sb_gen = 0, max_block_cnt = 0,
                    seg_cnt = 0, seg_free_cnt = 0, seg_alloc_p = 0, seg_reclaim_p = 0,
                    ftab = [0, 0, 0]\<rparr>,
      mediasize = m, disk = d, wr_fault = flt, io_log = []\<rparr>"

section \<open>Metadata addresses\<close>

text \<open>
  \<^verbatim>\<open>union meta_addr\<close>: the bit-fields \<^verbatim>\<open>index\<close> (bits 0 to 19), \<^verbatim>\<open>depth\<close> (20, 21),
  \<^verbatim>\<open>fd\<close> (22, 23), \<^verbatim>\<open>resv0\<close> and \<^verbatim>\<open>meta\<close> (30, 31) over \<^verbatim>\<open>uint32\<close>. An assignment
  to a two-bit field keeps the low two bits of the value.
\<close>

definition ma_depth :: "u32 \<Rightarrow> nat" where
  "ma_depth m = unat (drop_bit 20 m AND 3)"

definition ma_fd :: "u32 \<Rightarrow> nat" where
  "ma_fd m = unat (drop_bit 22 m AND 3)"

definition ma_set_depth :: "u32 \<Rightarrow> nat \<Rightarrow> u32" where
  "ma_set_depth m d = (m AND NOT (push_bit 20 3)) OR push_bit 20 (of_nat d AND 3)"

definition ma_set_fd :: "u32 \<Rightarrow> nat \<Rightarrow> u32" where
  "ma_set_fd m f = (m AND NOT (push_bit 22 3)) OR push_bit 22 (of_nat f AND 3)"

definition ma_index_get :: "u32 \<Rightarrow> nat \<Rightarrow> u32 res" where
  "ma_index_get m depth =
     (if depth = 0 then ok (drop_bit 10 m AND 0x3ff)
      else if depth = 1 then ok (m AND 0x3ff)
      else fail AssertFailed)"

definition ma_index_set :: "u32 \<Rightarrow> nat \<Rightarrow> u32 \<Rightarrow> u32 res" where
  "ma_index_set m depth index =
     MY_ASSERT (depth < META_LEAF_DEPTH)
       (MY_ASSERT (index < 1024)
          (if depth = 0 then ok ((m AND 0xfff003ff) OR push_bit 10 index)
           else if depth = 1 then ok ((m AND 0xfffffc00) OR index)
           else fail AssertFailed))"

text \<open>
  The first statements of \<^verbatim>\<open>file_access\<close>: the offset into the fbuf data that it stores
  in \<^verbatim>\<open>*buf_off\<close>, and the leaf address that it builds from \<^verbatim>\<open>fd\<close> and the byte offset.
\<close>

definition file_access_off :: "u32 \<Rightarrow> u32" where
  "file_access_off offset = offset AND 0xfff"

definition file_access_ma :: "nat \<Rightarrow> u32 \<Rightarrow> u32" where
  "file_access_ma fd offset =
     ma_set_fd (ma_set_depth (META_BASE + drop_bit 12 offset) META_LEAF_DEPTH) fd"

section \<open>The fbuf cache\<close>

definition fb_upd :: "nat \<Rightarrow> (fbuf \<Rightarrow> fbuf) \<Rightarrow> softc \<Rightarrow> softc" where
  "fb_upd p f sc = sc\<lparr>fbufs := (fbufs sc)[p := f (fbufs sc ! p)]\<rparr>"

text \<open>Dereferencing an fbuf pointer: \<open>p\<close> must lie in the array.\<close>

definition deref :: "softc \<Rightarrow> nat \<Rightarrow> fbuf res" where
  "deref sc p = (if p < length (fbufs sc) then ok (fbufs sc ! p) else fail Undefined)"

text \<open>
  \<^verbatim>\<open>buf->cir_queue.next\<close> and \<^verbatim>\<open>buf->cir_queue.prev\<close>, read and written. Through an fbuf
  that was last linked on an indirect list they reinterpret the list entry.
\<close>

definition cq_next :: "softc \<Rightarrow> nat \<Rightarrow> nat res" where
  "cq_next sc p = bnd (deref sc p) (\<lambda>b. case queue b of CirQ n pr \<Rightarrow> ok n | IndirQ \<Rightarrow> fail Undefined)"

definition cq_prev :: "softc \<Rightarrow> nat \<Rightarrow> nat res" where
  "cq_prev sc p = bnd (deref sc p) (\<lambda>b. case queue b of CirQ n pr \<Rightarrow> ok pr | IndirQ \<Rightarrow> fail Undefined)"

definition cq_set_next :: "softc \<Rightarrow> nat \<Rightarrow> nat \<Rightarrow> softc res" where
  "cq_set_next sc p v =
     bnd (deref sc p) (\<lambda>b. case queue b of
        CirQ n pr \<Rightarrow> ok (fb_upd p (\<lambda>b. b\<lparr>queue := CirQ v pr\<rparr>) sc)
      | IndirQ \<Rightarrow> fail Undefined)"

definition cq_set_prev :: "softc \<Rightarrow> nat \<Rightarrow> nat \<Rightarrow> softc res" where
  "cq_set_prev sc p v =
     bnd (deref sc p) (\<lambda>b. case queue b of
        CirQ n pr \<Rightarrow> ok (fb_upd p (\<lambda>b. b\<lparr>queue := CirQ n v\<rparr>) sc)
      | IndirQ \<Rightarrow> fail Undefined)"

text \<open>\<^verbatim>\<open>fbuf_search\<close>: the walk along the bucket, then the two counters.\<close>

fun bucket_find :: "fbuf list \<Rightarrow> u32 \<Rightarrow> nat list \<Rightarrow> nat option res" where
  "bucket_find fs m [] = ok None"
| "bucket_find fs m (b # bs) =
     (if \<not> b < length fs then fail Undefined
      else if ma (fs ! b) = m then ok (Some b)
      else bucket_find fs m bs)"

definition fbuf_search :: "softc \<Rightarrow> u32 \<Rightarrow> (nat option \<times> softc) res" where
  "fbuf_search sc m =
     bnd (bucket_find (fbufs sc) m (fbuf_bucket sc (unat m mod FILE_BUCKET_COUNT)))
       (\<lambda>r. case r of
          Some b \<Rightarrow> ok (Some b, sc\<lparr>fbuf_hit := fbuf_hit sc + 1\<rparr>)
        | None \<Rightarrow> ok (None, sc\<lparr>fbuf_miss := fbuf_miss sc + 1\<rparr>))"

text \<open>
  \<^verbatim>\<open>fbuf_cir_queue_insert\<close> and \<^verbatim>\<open>fbuf_cir_queue_remove\<close>, statement by statement. The
  two stores into \<^verbatim>\<open>buf->cir_queue\<close> of the insertion make the entry a circular one.
\<close>

definition fbuf_cir_queue_insert :: "softc \<Rightarrow> nat \<Rightarrow> softc res" where
  "fbuf_cir_queue_insert sc buf =
     (case cir_buffer_head sc of
        None \<Rightarrow> fail Undefined
      | Some h \<Rightarrow>
          bnd (cq_prev sc h) (\<lambda>prev.
          bnd (cq_set_prev sc h buf) (\<lambda>sc1.
          bnd (deref sc1 buf) (\<lambda>b.
          bnd (cq_set_next (fb_upd buf (\<lambda>b. b\<lparr>queue := CirQ h prev\<rparr>) sc1) prev buf) (\<lambda>sc2.
          ok (fb_upd buf (\<lambda>b. b\<lparr>on_cir_queue := True\<rparr>) sc2))))))"

definition fbuf_cir_queue_remove :: "softc \<Rightarrow> nat \<Rightarrow> softc res" where
  "fbuf_cir_queue_remove sc buf =
     bnd (deref sc buf) (\<lambda>b.
     MY_ASSERT (on_cir_queue b)
       (case cir_buffer_head sc of
          None \<Rightarrow> fail Undefined
        | Some h \<Rightarrow>
            bnd (cq_next sc h) (\<lambda>hn.
            MY_ASSERT (hn \<noteq> h)
              (bnd (cq_prev sc h) (\<lambda>hp.
               MY_ASSERT (hp \<noteq> h)
                 (let sc1 = (if buf = h then sc\<lparr>cir_buffer_head := Some hn\<rparr> else sc)
                  in bnd (cq_prev sc1 buf) (\<lambda>prev.
                     bnd (cq_next sc1 buf) (\<lambda>next.
                     bnd (cq_set_next sc1 prev next) (\<lambda>sc2.
                     bnd (cq_set_prev sc2 next prev) (\<lambda>sc3.
                     ok (fb_upd buf (\<lambda>b. b\<lparr>on_cir_queue := False\<rparr>) sc3)))))))))))"

text \<open>
  \<^verbatim>\<open>LIST_INSERT_HEAD(&sc->indirect_head[i], buf, indir_queue)\<close> and
  \<^verbatim>\<open>LIST_REMOVE(pbuf, indir_queue)\<close>; \<^verbatim>\<open>indirect_head\<close> has \<^verbatim>\<open>META_LEAF_DEPTH\<close> entries.
\<close>

definition indir_insert_head :: "softc \<Rightarrow> nat \<Rightarrow> nat \<Rightarrow> softc res" where
  "indir_insert_head sc i buf =
     (if \<not> i < length (indirect_head sc) then fail Undefined
      else ok (fb_upd buf (\<lambda>b. b\<lparr>queue := IndirQ\<rparr>)
                 (sc\<lparr>indirect_head := (indirect_head sc)[i := buf # indirect_head sc ! i]\<rparr>)))"

definition indir_remove :: "softc \<Rightarrow> nat \<Rightarrow> softc" where
  "indir_remove sc buf = sc\<lparr>indirect_head := map (removeAll buf) (indirect_head sc)\<rparr>"

text \<open>
  \<^verbatim>\<open>fbuf_write\<close>: one metadata sector appended to the front \<open>f\<close>; the sector address.
  The bound of the second assertion is the \<^verbatim>\<open>int\<close> product converted to \<^verbatim>\<open>uint32_t\<close>
  for the comparison.
\<close>

definition fbuf_write :: "softc \<Rightarrow> nat \<Rightarrow> front \<Rightarrow> (u32 \<times> softc) res" where
  "fbuf_write sc buf f =
     bnd (deref sc buf) (\<lambda>b.
     MY_ASSERT (unat (ss_alloc_p (front_sum f sc)) < SEG_SUM_OFF)
       (let sa = sega2sa (sega (front_sum f sc)) + ucast (ss_alloc_p (front_sum f sc))
        in MY_ASSERT (sa < word_of_int (seg_cnt (superblock sc) * int SECTORS_PER_SEG - 1))
             (let (e, sc1) = dev_write sc sa (data b)
              in MY_ASSERT (e = 0)
                   (let sc2 = fb_upd buf (\<lambda>b. b\<lparr>modified := False\<rparr>) sc1;
                        sc3 = sc2\<lparr>fbuf_modified_count := fbuf_modified_count sc2 - 1,
                                 other_write_count := other_write_count sc2 + 1\<rparr>;
                        sc4 = log_ev (MetaWrite sa (ma b)) sc3;
                        p = ss_alloc_p (front_sum f sc4);
                        sc5 = front_upd f (\<lambda>ss. ss\<lparr>ss_rm := (ss_rm ss)(unat p := ma b),
                                                    ss_alloc_p := p + 1\<rparr>) sc4
                    in if unat (p + 1) = SEG_SUM_OFF
                       then bnd (seg_alloc (seg_sum_write sc5 f) f) (\<lambda>sc6. ok (sa, sc6))
                       else ok (sa, sc5)))))"

text \<open>\<^verbatim>\<open>fbuf_flush\<close>.\<close>

definition fbuf_flush :: "softc \<Rightarrow> nat \<Rightarrow> front \<Rightarrow> softc res" where
  "fbuf_flush sc buf f =
     bnd (deref sc buf) (\<lambda>b.
     MY_ASSERT (modified b)
       (MY_ASSERT (IS_META_ADDR (ma b))
          (bnd (fbuf_write sc buf f) (\<lambda>(sa, sc0).
             let sc1 = fb_upd buf (\<lambda>b. b\<lparr>buf_sa := sa\<rparr>) sc0
             in case parent b of
               Some pb \<Rightarrow>
                 MY_ASSERT (ma_depth (ma b) \<noteq> 0)
                   (bnd (deref sc1 pb) (\<lambda>p.
                    MY_ASSERT (ma_depth (ma p) = ma_depth (ma b) - 1)
                      (bnd (ma_index_get (ma b) (ma_depth (ma b) - 1)) (\<lambda>pindex.
                         let sc2 = fb_upd pb (\<lambda>p. p\<lparr>data := (data p)(unat pindex := sa)\<rparr>) sc1
                         in if \<not> modified p
                            then ok (fb_upd pb (\<lambda>p. p\<lparr>modified := True\<rparr>)
                                       (sc2\<lparr>fbuf_modified_count := fbuf_modified_count sc2 + 1\<rparr>))
                            else ok sc2))))
             | None \<Rightarrow>
                 MY_ASSERT (ma_depth (ma b) = 0)
                   (MY_ASSERT (ma_fd (ma b) < FD_COUNT)
                      (ok (sc1\<lparr>superblock := (superblock sc1)
                                 \<lparr>ftab := (ftab (superblock sc1))[ma_fd (ma b) := sa]\<rparr>,
                               sb_modified := True\<rparr>)))))))"

text \<open>
  The \<^verbatim>\<open>do ... while\<close> of \<^verbatim>\<open>fbuf_alloc\<close>: the fbuf at which the scan ends. Every round
  but the last clears one \<^verbatim>\<open>accessed\<close> flag, which bounds the scan.
\<close>

function alloc_scan :: "softc \<Rightarrow> nat \<Rightarrow> nat \<Rightarrow> (nat \<times> softc) res" where
  "alloc_scan sc buf h =
     (if \<not> buf < length (fbufs sc) then fail Undefined
      else if \<not> on_cir_queue (fbufs sc ! buf) then fail AssertFailed
      else if \<not> accessed (fbufs sc ! buf) then ok (buf, sc)
      else
        (case queue (fbufs sc ! buf) of
           IndirQ \<Rightarrow> fail Undefined
         | CirQ n pr \<Rightarrow>
             if n = h then ok (n, fb_upd buf (\<lambda>b. b\<lparr>accessed := False\<rparr>) sc)
             else alloc_scan (fb_upd buf (\<lambda>b. b\<lparr>accessed := False\<rparr>) sc) n h))"
  by pat_completeness auto
termination
proof (relation "measure (\<lambda>(sc, buf, h). length (filter accessed (fbufs sc)))")
  show "wf (measure (\<lambda>(sc, buf, h). length (filter accessed (fbufs sc))))"
    by simp
next
  fix sc :: softc and buf h :: nat and x21 x22 :: nat
  assume a: "\<not> \<not> buf < length (fbufs sc)" "\<not> \<not> accessed (fbufs sc ! buf)"
  have dec: "length (filter P (xs[i := y])) < length (filter P xs)"
    if "i < length xs" "P (xs ! i)" "\<not> P y" for P :: "fbuf \<Rightarrow> bool" and xs i y
    using that
  proof (induction xs arbitrary: i)
    case Nil
    then show ?case by simp
  next
    case (Cons x xs)
    show ?case
    proof (cases i)
      case 0
      with Cons.prems show ?thesis by simp
    next
      case (Suc j)
      with Cons.prems Cons.IH[of j] show ?thesis by simp
    qed
  qed
  from a show "((fb_upd buf (\<lambda>b. b\<lparr>accessed := False\<rparr>) sc, x21, h), sc, buf, h)
      \<in> measure (\<lambda>(sc, buf, h). length (filter accessed (fbufs sc)))"
    by (simp add: fb_upd_def dec)
qed

declare alloc_scan.simps [simp del]

text \<open>
  \<^verbatim>\<open>fbuf_alloc\<close>: the scan, the head moved past the victim, the flush of a dirty
  victim through the hot front, and the victim cut from its parent.
\<close>

definition fbuf_alloc :: "softc \<Rightarrow> (nat \<times> softc) res" where
  "fbuf_alloc sc =
     (case cir_buffer_head sc of
        None \<Rightarrow> fail Undefined
      | Some h \<Rightarrow>
          bnd (alloc_scan sc h h) (\<lambda>(buf, sc1).
          bnd (cq_next sc1 buf) (\<lambda>n.
          bnd (deref sc1 buf) (\<lambda>b.
          bnd (if modified b then fbuf_flush (sc1\<lparr>cir_buffer_head := Some n\<rparr>) buf Hot
               else ok (sc1\<lparr>cir_buffer_head := Some n\<rparr>)) (\<lambda>sc2.
          bnd (deref sc2 buf) (\<lambda>b2.
            case parent b2 of
              None \<Rightarrow> ok (buf, sc2)
            | Some pb \<Rightarrow>
                bnd (deref sc2 pb) (\<lambda>p.
                MY_ASSERT (\<not> on_cir_queue p)
                  (let sc3 = fb_upd buf (\<lambda>b. b\<lparr>parent := None\<rparr>) sc2;
                       sc4 = fb_upd pb (\<lambda>p. p\<lparr>ref_cnt := ref_cnt p - 1\<rparr>) sc3
                   in if ref_cnt (fbufs sc4 ! pb) = 0
                      then bnd (fbuf_cir_queue_insert (indir_remove sc4 pb) pb) (\<lambda>sc5.
                           ok (buf, fb_upd pb (\<lambda>p. p\<lparr>accessed := False\<rparr>) sc5))
                      else ok (buf, sc4)))))))))"

text \<open>
  \<^verbatim>\<open>fbuf_read_and_hash\<close>. \<^verbatim>\<open>LIST_REMOVE(buf, buffer_bucket_queue)\<close> takes the fbuf out
  of the bucket it is in.
\<close>

definition fbuf_read_and_hash :: "softc \<Rightarrow> u32 \<Rightarrow> u32 \<Rightarrow> (nat \<times> softc) res" where
  "fbuf_read_and_hash sc sa m =
     bnd (fbuf_alloc sc) (\<lambda>(buf, sc1).
       let d = (if sa = SECTOR_NULL then (\<lambda>_. 0) else disk sc1 sa);
           sc2 = fb_upd buf (\<lambda>b. b\<lparr>data := d, ma := m\<rparr>) sc1;
           sc3 = sc2\<lparr>fbuf_bucket := (\<lambda>h. removeAll buf (fbuf_bucket sc2 h))\<rparr>
       in ok (buf, fb_upd buf (\<lambda>b. b\<lparr>buf_sa := sa\<rparr>) (fbuf_hash_insert sc3 buf (unat m))))"

text \<open>
  The \<^verbatim>\<open>for\<close> loop of \<^verbatim>\<open>fbuf_get\<close>. \<open>k\<close> counts the levels still to go, so that
  \<^verbatim>\<open>i\<close> is \<open>ma_depth m - k\<close>; \<open>sa\<close>, \<open>pbuf\<close> and \<open>tma\<close> are the locals of that name.
  The assertion on \<^verbatim>\<open>buf->sa\<close> reads the field \<open>buf_sa\<close>.
\<close>

fun fbuf_get_loop :: "nat \<Rightarrow> softc \<Rightarrow> u32 \<Rightarrow> u32 \<Rightarrow> nat option \<Rightarrow> u32 \<Rightarrow> (nat \<times> softc) res" where
  "fbuf_get_loop k sc m sa pbuf tma0 =
     (let i = ma_depth m - k;
          tma = ma_set_depth tma0 i
      in bnd (fbuf_search sc tma) (\<lambda>(r, sc1).
         bnd (case r of
                None \<Rightarrow>
                  bnd (fbuf_read_and_hash sc1 sa tma) (\<lambda>(buf, sc2).
                  ok (buf, fb_upd buf (\<lambda>b. b\<lparr>parent := pbuf\<rparr>) sc2))
              | Some buf \<Rightarrow>
                  MY_ASSERT (parent (fbufs sc1 ! buf) = pbuf)
                    (MY_ASSERT (buf_sa (fbufs sc1 ! buf) = sa)
                       (case pbuf of
                          None \<Rightarrow> ok (buf, sc1)
                        | Some pb \<Rightarrow>
                            bnd (deref sc1 pb) (\<lambda>p.
                            MY_ASSERT (ref_cnt p \<noteq> 1)
                              (ok (buf, fb_upd pb (\<lambda>p. p\<lparr>ref_cnt := ref_cnt p - 1\<rparr>) sc1))))))
           (\<lambda>(buf, sc3).
              case k of
                0 \<Rightarrow> ok (buf, sc3)
              | Suc k' \<Rightarrow>
                  bnd (if on_cir_queue (fbufs sc3 ! buf)
                       then bnd (fbuf_cir_queue_remove sc3 buf) (\<lambda>sc4.
                            bnd (indir_insert_head sc4 i buf) (\<lambda>sc5.
                            ok (fb_upd buf (\<lambda>b. b\<lparr>ref_cnt := 0\<rparr>) sc5)))
                       else ok sc3) (\<lambda>sc6.
                  let sc7 = fb_upd buf (\<lambda>b. b\<lparr>ref_cnt := ref_cnt b + 1\<rparr>) sc6
                  in bnd (ma_index_get m i) (\<lambda>index.
                     bnd (ma_index_set tma i index) (\<lambda>tma'.
                     fbuf_get_loop k' sc7 m (data (fbufs sc7 ! buf) (unat index)) (Some buf) tma'))))))"

declare fbuf_get_loop.simps [simp del]

definition fbuf_get :: "softc \<Rightarrow> u32 \<Rightarrow> (nat \<times> softc) res" where
  "fbuf_get sc m =
     MY_ASSERT (IS_META_ADDR m)
       (bnd (fbuf_search sc m) (\<lambda>(r, sc1).
          case r of
            Some buf \<Rightarrow> ok (buf, sc1)
          | None \<Rightarrow>
              MY_ASSERT (ma_fd m < FD_COUNT)
                (fbuf_get_loop (ma_depth m) sc1 m (ftab (superblock sc1) ! ma_fd m) None
                   (ma_set_fd META_BASE (ma_fd m)))))"

text \<open>
  \<^verbatim>\<open>file_access\<close> returns the fbuf whose \<^verbatim>\<open>data\<close> it points to and leaves the offset in
  \<^verbatim>\<open>*buf_off\<close>; \<^verbatim>\<open>file_read_4byte\<close> and \<^verbatim>\<open>file_write_4byte\<close> load and store the 32-bit
  word at that byte offset, which is a multiple of four.
\<close>

definition file_access :: "softc \<Rightarrow> nat \<Rightarrow> u32 \<Rightarrow> bool \<Rightarrow> (nat \<times> u32 \<times> softc) res" where
  "file_access sc fd offset bl_write =
     bnd (fbuf_get sc (file_access_ma fd offset)) (\<lambda>(buf, sc1).
       let sc2 = fb_upd buf (\<lambda>b. b\<lparr>accessed := True\<rparr>) sc1
       in if \<not> modified (fbufs sc2 ! buf) \<and> bl_write
          then ok (buf, file_access_off offset,
                   fb_upd buf (\<lambda>b. b\<lparr>modified := True\<rparr>)
                     (sc2\<lparr>fbuf_modified_count := fbuf_modified_count sc2 + 1\<rparr>))
          else ok (buf, file_access_off offset, sc2))"

definition file_read_4byte :: "softc \<Rightarrow> nat \<Rightarrow> u32 \<Rightarrow> (u32 \<times> softc) res" where
  "file_read_4byte sc fd ba =
     MY_ASSERT (ba AND 0xc0000000 = 0)
       (bnd (file_access sc fd (push_bit 2 ba) False) (\<lambda>(buf, off, sc1).
          ok (data (fbufs sc1 ! buf) (unat off div 4), sc1)))"

definition file_write_4byte :: "softc \<Rightarrow> nat \<Rightarrow> u32 \<Rightarrow> u32 \<Rightarrow> softc res" where
  "file_write_4byte sc fd ba sa =
     MY_ASSERT (ba AND 0xc0000000 = 0)
       (bnd (file_access sc fd (push_bit 2 ba) True) (\<lambda>(buf, off, sc1).
          ok (log_ev (FwdWrite fd ba sa)
                (fb_upd buf (\<lambda>b. b\<lparr>data := (data b)(unat off div 4 := sa)\<rparr>) sc1))))"

text \<open>\<^verbatim>\<open>fbuf_ma2sa\<close> (the version that is compiled).\<close>

definition fbuf_ma2sa :: "softc \<Rightarrow> u32 \<Rightarrow> (u32 \<times> softc) res" where
  "fbuf_ma2sa sc m =
     (if ma_depth m = 0 then
        (if ma_fd m < FD_COUNT then ok (ftab (superblock sc) ! ma_fd m, sc) else fail Undefined)
      else if ma_depth m = 1 \<or> ma_depth m = 2 then
        bnd (fbuf_get sc m) (\<lambda>(buf, sc1).
          case parent (fbufs sc1 ! buf) of
            None \<Rightarrow> fail Undefined
          | Some pb \<Rightarrow>
              bnd (deref sc1 pb) (\<lambda>p.
              bnd (ma_index_get m (ma_depth m - 1)) (\<lambda>pindex.
              ok (data p (unat pindex), sc1))))
      else fail AssertFailed)"

section \<open>Read path\<close>

text \<open>
  What \<^verbatim>\<open>_logstor_read\<close> does for one run: \<open>ZeroFill pos n\<close> is the \<^verbatim>\<open>memset\<close> of \<open>n\<close>
  sectors at sector \<open>pos\<close> of the client buffer, \<open>BackRead pos sa n\<close> the cloned bio
  that reads \<open>n\<close> sectors from sector address \<open>sa\<close> into the buffer at \<open>pos\<close>.
\<close>

datatype rop = ZeroFill nat nat | BackRead nat u32 nat

definition dispatch :: "u32 \<Rightarrow> nat \<Rightarrow> nat \<Rightarrow> rop" where
  "dispatch start_sa pos count =
     (if start_sa = SECTOR_NULL \<or> start_sa = SECTOR_DELETE then ZeroFill pos count
      else BackRead pos start_sa count)"

text \<open>
  The \<^verbatim>\<open>for\<close> loop of \<^verbatim>\<open>_logstor_read\<close>, \<open>n\<close> rounds to go; \<open>b\<close> is \<^verbatim>\<open>ba + i\<close>,
  \<open>pos\<close> the position of \<^verbatim>\<open>data\<close> in the client buffer in sectors, \<open>ops\<close> what has
  been dispatched so far.
\<close>

fun read_loop ::
  "nat \<Rightarrow> softc \<Rightarrow> u32 \<Rightarrow> u32 \<Rightarrow> u32 \<Rightarrow> nat \<Rightarrow> nat \<Rightarrow> rop list
     \<Rightarrow> (rop list \<times> u32 \<times> nat \<times> nat \<times> softc) res" where
  "read_loop 0 sc b start_sa pre_sa count pos ops = ok (ops, start_sa, count, pos, sc)"
| "read_loop (Suc n) sc b start_sa pre_sa count pos ops =
     bnd (file_read_4byte sc FD_ACTIVE b) (\<lambda>(sa, sc1).
       if sa = pre_sa + 1
       then read_loop n sc1 (b + 1) start_sa sa (count + 1) pos ops
       else read_loop n sc1 (b + 1) sa sa 1 (pos + count)
              (ops @ [dispatch start_sa pos count]))"

definition logstor_read_multi :: "softc \<Rightarrow> u32 \<Rightarrow> nat \<Rightarrow> (rop list \<times> softc) res" where
  "logstor_read_multi sc ba sz =
     bnd (file_read_4byte sc FD_ACTIVE ba) (\<lambda>(sa0, sc1).
     bnd (read_loop (sz - 1) sc1 (ba + 1) sa0 sa0 1 0 []) (\<lambda>(ops, start_sa, count, pos, sc2).
     ok (ops @ [dispatch start_sa pos count], sc2)))"

definition logstor_read_one :: "softc \<Rightarrow> u32 \<Rightarrow> (rop list \<times> softc) res" where
  "logstor_read_one sc ba =
     bnd (file_read_4byte sc FD_ACTIVE ba) (\<lambda>(start_sa, sc1).
       ok ([dispatch start_sa 0 1], sc1))"

definition logstor_read :: "softc \<Rightarrow> u32 \<Rightarrow> nat \<Rightarrow> (rop list \<times> softc) res" where
  "logstor_read sc ba sz =
     MY_ASSERT (ba < max_block_cnt (superblock sc))
       (if sz = 1 then logstor_read_one sc ba else logstor_read_multi sc ba sz)"

text \<open>
  The sector addresses that \<open>n\<close> successive calls of \<^verbatim>\<open>file_read_4byte\<close> look up,
  starting at block address \<open>b\<close>, and the state after them.
\<close>

fun lookups :: "nat \<Rightarrow> softc \<Rightarrow> u32 \<Rightarrow> (u32 list \<times> softc) res" where
  "lookups 0 sc b = ok ([], sc)"
| "lookups (Suc n) sc b =
     bnd (file_read_4byte sc FD_ACTIVE b) (\<lambda>(sa, sc1).
     bnd (lookups n sc1 (b + 1)) (\<lambda>(sas, sc2). ok (sa # sas, sc2)))"

text \<open>
  What the loop of \<^verbatim>\<open>_logstor_read\<close> dispatches, as a function of the sector addresses
  still to come and the locals \<^verbatim>\<open>start_sa\<close>, \<^verbatim>\<open>pre_sa\<close>, \<^verbatim>\<open>count\<close> and the buffer position.
\<close>

fun runs :: "u32 list \<Rightarrow> u32 \<Rightarrow> u32 \<Rightarrow> nat \<Rightarrow> nat \<Rightarrow> rop list" where
  "runs [] start_sa pre_sa count pos = [dispatch start_sa pos count]"
| "runs (sa # sas) start_sa pre_sa count pos =
     (if sa = pre_sa + 1 then runs sas start_sa sa (count + 1) pos
      else dispatch start_sa pos count # runs sas sa sa 1 (pos + count))"

text \<open>
  The same loop as it stands when the addresses run out: the operations dispatched and
  the locals \<^verbatim>\<open>start_sa\<close>, \<^verbatim>\<open>count\<close> and the buffer position of the run still open.
\<close>

fun runs_open :: "u32 list \<Rightarrow> u32 \<Rightarrow> u32 \<Rightarrow> nat \<Rightarrow> nat \<Rightarrow> rop list \<times> u32 \<times> nat \<times> nat" where
  "runs_open [] start_sa pre_sa count pos = ([], start_sa, count, pos)"
| "runs_open (sa # sas) start_sa pre_sa count pos =
     (if sa = pre_sa + 1 then runs_open sas start_sa sa (count + 1) pos
      else (let (ops, r) = runs_open sas sa sa 1 (pos + count)
            in (dispatch start_sa pos count # ops, r)))"

definition coalesce :: "u32 list \<Rightarrow> rop list" where
  "coalesce sas = (case sas of [] \<Rightarrow> [] | sa # rest \<Rightarrow> runs rest sa sa 1 0)"

text \<open>
  The spec's reading of the result. An operation answers the blocks from \<open>op_pos\<close> on,
  \<open>op_len\<close> of them. The operations tile the request when each starts where the one
  before it ends. An operation is a maximal run of the looked-up addresses \<open>sas\<close> when
  the addresses it covers are consecutive and the run can be extended on neither side;
  \<open>run_first\<close> and \<open>run_last\<close> are the sector addresses at its two ends. \<open>max_run\<close>
  adds how the code dispatches the run: by its first address.
\<close>

fun op_pos :: "rop \<Rightarrow> nat" where
  "op_pos (ZeroFill p n) = p"
| "op_pos (BackRead p sa n) = p"

fun op_len :: "rop \<Rightarrow> nat" where
  "op_len (ZeroFill p n) = n"
| "op_len (BackRead p sa n) = n"

fun is_back :: "rop \<Rightarrow> bool" where
  "is_back (ZeroFill p n) = False"
| "is_back (BackRead p sa n) = True"

definition covers :: "rop \<Rightarrow> nat \<Rightarrow> bool" where
  "covers x i \<longleftrightarrow> op_pos x \<le> i \<and> i < op_pos x + op_len x"

fun tiles :: "rop list \<Rightarrow> nat \<Rightarrow> nat \<Rightarrow> bool" where
  "tiles [] p n \<longleftrightarrow> p = n"
| "tiles (x # xs) p n \<longleftrightarrow> op_pos x = p \<and> 0 < op_len x \<and> tiles xs (p + op_len x) n"

definition maximal_run :: "u32 list \<Rightarrow> rop \<Rightarrow> bool" where
  "maximal_run sas x \<longleftrightarrow>
     0 < op_len x \<and> op_pos x + op_len x \<le> length sas
     \<and> (\<forall>j. op_pos x \<le> j \<and> Suc j < op_pos x + op_len x \<longrightarrow> sas ! Suc j = sas ! j + 1)
     \<and> (op_pos x = 0 \<or> sas ! op_pos x \<noteq> sas ! (op_pos x - 1) + 1)
     \<and> (op_pos x + op_len x = length sas
          \<or> sas ! (op_pos x + op_len x) \<noteq> sas ! (op_pos x + op_len x - 1) + 1)"

definition max_run :: "u32 list \<Rightarrow> rop \<Rightarrow> bool" where
  "max_run sas x \<longleftrightarrow>
     maximal_run sas x \<and> x = dispatch (sas ! op_pos x) (op_pos x) (op_len x)"

definition run_first :: "u32 list \<Rightarrow> rop \<Rightarrow> u32" where
  "run_first sas x = sas ! op_pos x"

definition run_last :: "u32 list \<Rightarrow> rop \<Rightarrow> u32" where
  "run_last sas x = sas ! (op_pos x + op_len x - 1)"

text \<open>
  The two markers, and what an entry of the forward map of \<^verbatim>\<open>FD_ACTIVE\<close> is: a marker
  (\<^verbatim>\<open>SECTOR_NULL\<close> where nothing was stored, \<^verbatim>\<open>SECTOR_DELETE\<close> from \<^verbatim>\<open>logstor_delete\<close>), or
  what the write path stores, the address \<^verbatim>\<open>sega2sa(sega) + ss_alloc_p\<close> of a sector of a
  data segment (segments from \<^verbatim>\<open>SEG_DATA_START\<close> on), which the write path asserts to lie
  below the end of the device.
\<close>

definition marker :: "u32 \<Rightarrow> bool" where
  "marker sa \<longleftrightarrow> sa = SECTOR_NULL \<or> sa = SECTOR_DELETE"

definition fwd_value :: "softc \<Rightarrow> u32 \<Rightarrow> bool" where
  "fwd_value sc sa \<longleftrightarrow>
     marker sa
     \<or> (sega2sa (word_of_int SEG_DATA_START) \<le> sa
        \<and> sa < word_of_int (seg_cnt (superblock sc) * int SECTORS_PER_SEG))"

section \<open>Delete\<close>

fun delete_loop :: "nat \<Rightarrow> softc \<Rightarrow> u32 \<Rightarrow> softc res" where
  "delete_loop 0 sc b = ok sc"
| "delete_loop (Suc n) sc b =
     bnd (file_write_4byte sc FD_ACTIVE b SECTOR_DELETE) (\<lambda>sc1. delete_loop n sc1 (b + 1))"

definition logstor_delete :: "softc \<Rightarrow> u32 \<Rightarrow> int \<Rightarrow> softc res" where
  "logstor_delete sc ba sz =
     MY_ASSERT (ba < max_block_cnt (superblock sc))
       (if sz = 1 then file_write_4byte sc FD_ACTIVE ba SECTOR_DELETE
        else delete_loop (nat sz) sc ba)"

section \<open>Write path\<close>

text \<open>
  The body of \<^verbatim>\<open>seg_clean\<close> in the sources is not C (its call of \<^verbatim>\<open>_logstor_write_one\<close>
  has three arguments for four parameters, and a prototype of \<^verbatim>\<open>g_write_data\<close> stands
  where a statement should), so \<^verbatim>\<open>cleaner\<close> has no behaviour to embed. The write path
  takes the cleaner as the parameter \<open>cl\<close>; \<^verbatim>\<open>clean_check\<close> notes its call in the log and
  keeps the log as it is over the cleaner's run.
\<close>

definition clean_check :: "(softc \<Rightarrow> softc res) \<Rightarrow> softc \<Rightarrow> softc res" where
  "clean_check cl sc =
     (let sc0 = log_ev CleanCheck sc
      in if (word_of_int (seg_free_cnt (superblock sc0)) :: u32) \<le> clean_low_water sc0
            \<and> cleaner_disabled sc0 = 0
         then MY_ASSERT (cleaner_disabled sc0 \<le> 2)
                (bnd (cl (sc0\<lparr>cleaner_disabled := cleaner_disabled sc0 + 1\<rparr>)) (\<lambda>sc1.
                 MY_ASSERT (cleaner_disabled sc1 \<noteq> 0)
                   (ok (sc1\<lparr>cleaner_disabled := cleaner_disabled sc1 - 1,
                            io_log := io_log sc0\<rparr>))))
         else ok sc0)"

text \<open>
  The request to the backing device for \<open>n\<close> sectors of client data at \<open>sa\<close>: each
  sector that the device takes is stored; the flag says whether all of them were.
  \<open>payload\<close> maps the position of a sector in the client buffer to its content.
  \<^verbatim>\<open>g_clone_bio\<close> gives a bio, so \<^verbatim>\<open>MY_ASSERT(cbp != NULL)\<close> of \<^verbatim>\<open>_logstor_write_one\<close> holds,
  and the request is served when \<^verbatim>\<open>g_io_request\<close> is called.
\<close>

fun dev_write_data :: "nat \<Rightarrow> softc \<Rightarrow> u32 \<Rightarrow> (nat \<Rightarrow> sector) \<Rightarrow> nat \<Rightarrow> bool \<times> softc" where
  "dev_write_data 0 sc sa payload pos = (True, sc)"
| "dev_write_data (Suc n) sc sa payload pos =
     (let (e, sc1) = dev_write sc sa (payload pos);
          (r, sc2) = dev_write_data n sc1 (sa + 1) payload (Suc pos)
      in (e = 0 \<and> r, sc2))"

definition issue_data_write :: "softc \<Rightarrow> u32 \<Rightarrow> nat \<Rightarrow> (nat \<Rightarrow> sector) \<Rightarrow> nat \<Rightarrow> softc" where
  "issue_data_write sc sa n payload pos =
     (let (r, sc1) = dev_write_data n sc sa payload pos;
          sc2 = log_ev (DataWrite sa n r) sc1
      in if cleaner_disabled sc2 \<noteq> 0
         then sc2\<lparr>other_write_count := other_write_count sc2 + of_nat n\<rparr>
         else sc2\<lparr>data_write_count := data_write_count sc2 + of_nat n\<rparr>)"

text \<open>
  \<^verbatim>\<open>seg_sum->ss_rm[seg_sum->ss_alloc_p++] = ba\<close>; the array has \<^verbatim>\<open>SECTORS_PER_SEG - 1\<close>
  entries.
\<close>

definition rm_record :: "softc \<Rightarrow> front \<Rightarrow> u32 \<Rightarrow> softc res" where
  "rm_record sc f ba =
     (let p = ss_alloc_p (front_sum f sc)
      in if \<not> unat p < SECTORS_PER_SEG - 1 then fail Undefined
         else ok (log_ev (RmRecord f (sega (front_sum f sc)) (unat p) ba)
                    (front_upd f (\<lambda>ss. ss\<lparr>ss_rm := (ss_rm ss)(unat p := ba),
                                           ss_alloc_p := p + 1\<rparr>) sc)))"

fun rm_record_loop :: "nat \<Rightarrow> softc \<Rightarrow> front \<Rightarrow> u32 \<Rightarrow> softc res" where
  "rm_record_loop 0 sc f b = ok sc"
| "rm_record_loop (Suc n) sc f b =
     bnd (rm_record sc f b) (\<lambda>sc1. rm_record_loop n sc1 f (b + 1))"

fun fwd_loop :: "nat \<Rightarrow> softc \<Rightarrow> u32 \<Rightarrow> u32 \<Rightarrow> softc res" where
  "fwd_loop 0 sc b sa = ok sc"
| "fwd_loop (Suc n) sc b sa =
     bnd (file_write_4byte sc FD_ACTIVE b sa) (\<lambda>sc1. fwd_loop n sc1 (b + 1) (sa + 1))"

text \<open>The block \<^verbatim>\<open>if (seg_sum->ss_alloc_p == SEG_SUM_OFF) { ... }\<close> of the write path.\<close>

definition segment_full :: "(softc \<Rightarrow> softc res) \<Rightarrow> softc \<Rightarrow> front \<Rightarrow> softc res" where
  "segment_full cl sc f =
     (if unat (ss_alloc_p (front_sum f sc)) = SEG_SUM_OFF
      then bnd (seg_alloc (seg_sum_write sc f) f) (clean_check cl)
      else ok sc)"

definition logstor_write_one ::
  "(softc \<Rightarrow> softc res) \<Rightarrow> softc \<Rightarrow> u32 \<Rightarrow> front \<Rightarrow> (nat \<Rightarrow> sector) \<Rightarrow> (int \<times> softc) res" where
  "logstor_write_one cl sc ba f payload =
     MY_ASSERT (ba < max_block_cnt (superblock sc))
       (MY_ASSERT (unat (ss_alloc_p (front_sum f sc)) < SEG_SUM_OFF)
          (let sa = sega2sa (sega (front_sum f sc)) + ucast (ss_alloc_p (front_sum f sc))
           in MY_ASSERT (sa < word_of_int (seg_cnt (superblock sc) * int SECTORS_PER_SEG))
                (bnd (rm_record (issue_data_write sc sa 1 payload 0) f ba) (\<lambda>sc1.
                 bnd (segment_full cl sc1 f) (\<lambda>sc2.
                 bnd (file_write_4byte sc2 FD_ACTIVE ba sa) (\<lambda>sc3.
                 ok (0, sc3)))))))"

text \<open>
  One round of the \<^verbatim>\<open>while\<close> loop of \<^verbatim>\<open>_logstor_write\<close>: the state after the round
  together with \<^verbatim>\<open>count\<close>. A negative \<^verbatim>\<open>count\<close> (a write pointer beyond \<^verbatim>\<open>SEG_SUM_OFF\<close>)
  would ask the device for a negative length; the round is undefined then.
\<close>

definition write_round ::
  "(softc \<Rightarrow> softc res) \<Rightarrow> front \<Rightarrow> (nat \<Rightarrow> sector) \<Rightarrow> softc \<Rightarrow> u32 \<Rightarrow> int \<Rightarrow> nat
     \<Rightarrow> (int \<times> softc) res" where
  "write_round cl f payload sc ba sec_remain pos =
     (let sec_free = int SEG_SUM_OFF - int (unat (ss_alloc_p (front_sum f sc)));
          count = (if sec_remain \<le> sec_free then sec_remain else sec_free);
          sa = sega2sa (sega (front_sum f sc)) + ucast (ss_alloc_p (front_sum f sc))
      in if count < 0 then fail Undefined
         else if \<not> sa + word_of_int count
                    < word_of_int (seg_cnt (superblock sc) * int SECTORS_PER_SEG)
         then fail AssertFailed
         else
           bnd (rm_record_loop (nat count)
                  (issue_data_write sc sa (nat count) payload pos) f ba) (\<lambda>sc1.
           bnd (segment_full cl sc1 f) (\<lambda>sc2.
           bnd (fwd_loop (nat count) sc2 ba sa) (\<lambda>sc3.
           ok (count, sc3)))))"

text \<open>
  The \<^verbatim>\<open>while\<close> loop of \<^verbatim>\<open>_logstor_write\<close>. Nothing in it bounds the number of rounds:
  a round in which \<^verbatim>\<open>count\<close> is 0 leaves \<^verbatim>\<open>sec_remain\<close> as it is.
\<close>

partial_function (option) write_loop ::
  "(softc \<Rightarrow> softc res) \<Rightarrow> front \<Rightarrow> (nat \<Rightarrow> sector) \<Rightarrow> softc \<Rightarrow> u32 \<Rightarrow> int \<Rightarrow> nat
     \<Rightarrow> (error + softc) option" where
  "write_loop cl f payload sc ba sec_remain pos =
     (if 0 < sec_remain then
        (case write_round cl f payload sc ba sec_remain pos of
           None \<Rightarrow> None
         | Some (Inl e) \<Rightarrow> Some (Inl e)
         | Some (Inr (count, sc3)) \<Rightarrow>
             write_loop cl f payload sc3 (ba + word_of_int count) (sec_remain - count)
               (pos + nat count))
      else ok sc)"

definition logstor_write_multi ::
  "(softc \<Rightarrow> softc res) \<Rightarrow> softc \<Rightarrow> u32 \<Rightarrow> int \<Rightarrow> front \<Rightarrow> (nat \<Rightarrow> sector) \<Rightarrow> (int \<times> softc) res" where
  "logstor_write_multi cl sc ba sz f payload =
     MY_ASSERT (ba < max_block_cnt (superblock sc))
       (MY_ASSERT (unat (ss_alloc_p (front_sum f sc)) < SEG_SUM_OFF)
          (bnd (write_loop cl f payload sc ba sz 0) (\<lambda>sc1. ok (0, sc1))))"

definition logstor_write ::
  "(softc \<Rightarrow> softc res) \<Rightarrow> softc \<Rightarrow> u32 \<Rightarrow> int \<Rightarrow> (nat \<Rightarrow> sector) \<Rightarrow> (int \<times> softc) res" where
  "logstor_write cl sc ba sz payload =
     (if sz = 1 then logstor_write_one cl sc ba Hot payload
      else logstor_write_multi cl sc ba sz Hot payload)"

section \<open>Live count of the cleaner\<close>

text \<open>
  The \<^verbatim>\<open>for\<close> loop of \<^verbatim>\<open>seg_live_count\<close>, \<open>n\<close> rounds to go, over the summary \<open>ss\<close>
  that \<^verbatim>\<open>seg_reclaim_init\<close> loaded; \<open>lc\<close> is \<^verbatim>\<open>live_count\<close>.
\<close>

fun live_loop :: "nat \<Rightarrow> softc \<Rightarrow> seg_sum \<Rightarrow> nat \<Rightarrow> u32 \<Rightarrow> (u32 \<times> softc) res" where
  "live_loop 0 sc ss i lc = ok (lc, sc)"
| "live_loop (Suc n) sc ss i lc =
     (if \<not> i < SECTORS_PER_SEG - 1 then fail Undefined
      else if IS_META_ADDR (ss_rm ss i) then
        bnd (fbuf_ma2sa sc (ss_rm ss i)) (\<lambda>(sa, sc1).
          if sa = sega2sa (sega ss) + of_nat i then
            bnd (fbuf_get sc1 (ss_rm ss i)) (\<lambda>(buf, sc2).
              if \<not> modified (fbufs sc2 ! buf) \<and> \<not> accessed (fbufs sc2 ! buf)
              then live_loop n sc2 ss (Suc i) (lc + 1)
              else live_loop n sc2 ss (Suc i) lc)
          else live_loop n sc1 ss (Suc i) lc)
      else
        bnd (file_read_4byte sc FD_ACTIVE (ss_rm ss i)) (\<lambda>(sa, sc1).
          if sa = sega2sa (sega ss) + of_nat i
          then live_loop n sc1 ss (Suc i) (lc + 1)
          else live_loop n sc1 ss (Suc i) lc))"

definition seg_live_count :: "softc \<Rightarrow> seg_sum \<Rightarrow> (seg_sum \<times> softc) res" where
  "seg_live_count sc ss =
     bnd (live_loop (unat (ss_alloc_p ss)) sc ss 0 0) (\<lambda>(lc, sc1).
       ok (ss\<lparr>live_count := lc\<rparr>, sc1))"

text \<open>
  The spec's liveness test for slot \<open>i\<close> of the summary \<open>ss\<close>, carried out in the
  state \<open>sc\<close>: the verdict and the state after the lookups it makes. \<open>live_flags\<close>
  applies it to \<open>n\<close> slots from \<open>i\<close> on, one after the other.
\<close>

definition slot_live :: "softc \<Rightarrow> seg_sum \<Rightarrow> nat \<Rightarrow> (bool \<times> softc) res" where
  "slot_live sc ss i =
     (if IS_META_ADDR (ss_rm ss i) then
        bnd (fbuf_ma2sa sc (ss_rm ss i)) (\<lambda>(sa, sc1).
          if sa = sega2sa (sega ss) + of_nat i then
            bnd (fbuf_get sc1 (ss_rm ss i)) (\<lambda>(buf, sc2).
              ok (\<not> modified (fbufs sc2 ! buf) \<and> \<not> accessed (fbufs sc2 ! buf), sc2))
          else ok (False, sc1))
      else
        bnd (file_read_4byte sc FD_ACTIVE (ss_rm ss i)) (\<lambda>(sa, sc1).
          ok (sa = sega2sa (sega ss) + of_nat i, sc1)))"

fun live_flags :: "nat \<Rightarrow> softc \<Rightarrow> seg_sum \<Rightarrow> nat \<Rightarrow> (bool list \<times> softc) res" where
  "live_flags 0 sc ss i = ok ([], sc)"
| "live_flags (Suc n) sc ss i =
     (if \<not> i < SECTORS_PER_SEG - 1 then fail Undefined
      else bnd (slot_live sc ss i) (\<lambda>(b, sc1).
           bnd (live_flags n sc1 ss (Suc i)) (\<lambda>(bs, sc2). ok (b # bs, sc2))))"

definition count_true :: "bool list \<Rightarrow> nat" where
  "count_true bs = length (filter (\<lambda>b. b) bs)"

text \<open>Reading one component out of a result.\<close>

definition res_map :: "('a \<Rightarrow> 'b) \<Rightarrow> 'a res \<Rightarrow> 'b res" where
  "res_map f m = bnd m (\<lambda>x. ok (f x))"

section \<open>The allocator's walk, as the spec describes it\<close>

text \<open>
  The circular successor of the allocation pointer, the \<open>k\<close>-th candidate from the
  current pointer on, and what the walk does with it: an assertion trips (or the
  increment overflows), the candidate is skipped, or it is free and taken.
\<close>

definition seg_next :: "int \<Rightarrow> int \<Rightarrow> int" where
  "seg_next n p = (if p + 1 = n then SEG_DATA_START else p + 1)"

definition cand :: "softc \<Rightarrow> nat \<Rightarrow> int" where
  "cand sc k = (seg_next (seg_cnt (superblock sc)) ^^ k) (seg_alloc_p (superblock sc))"

definition cand_sega :: "softc \<Rightarrow> nat \<Rightarrow> u32" where
  "cand_sega sc k = word_of_int (cand sc k)"

definition cand_trips :: "softc \<Rightarrow> nat \<Rightarrow> bool" where
  "cand_trips sc k \<longleftrightarrow>
     2 ^ 31 \<le> cand sc k + 1 \<or> seg_cnt (superblock sc) \<le> cand sc (Suc k)
     \<or> cand sc (Suc k) + 1 = seg_reclaim_p (superblock sc)
     \<or> cand_sega sc k = sega (seg_sum_hot sc)"

definition cand_free :: "softc \<Rightarrow> nat \<Rightarrow> bool" where
  "cand_free sc k \<longleftrightarrow>
     cand_sega sc k \<noteq> sega (seg_sum_cold sc) \<and> unat (cand_sega sc k) < length (seg_age sc)
     \<and> seg_age sc ! unat (cand_sega sc k) = 0"

definition cand_skipped :: "softc \<Rightarrow> nat \<Rightarrow> bool" where
  "cand_skipped sc k \<longleftrightarrow>
     cand_sega sc k = sega (seg_sum_cold sc)
     \<or> (unat (cand_sega sc k) < length (seg_age sc) \<and> seg_age sc ! unat (cand_sega sc k) \<noteq> 0)"

definition advance :: "softc \<Rightarrow> softc" where
  "advance sc = sc\<lparr>superblock := (superblock sc)\<lparr>seg_alloc_p := cand sc 1\<rparr>\<rparr>"

text \<open>The state in which \<^verbatim>\<open>seg_alloc\<close> returns after taking the \<open>k\<close>-th candidate.\<close>

definition seg_alloc_taken :: "softc \<Rightarrow> front \<Rightarrow> nat \<Rightarrow> softc" where
  "seg_alloc_taken sc tgt k =
     (let sc1 = (advance ^^ Suc k) sc;
          sc2 = front_upd tgt (\<lambda>ss. ss\<lparr>sega := cand_sega sc k, ss_alloc_p := 0\<rparr>) sc1
      in log_ev (SegAlloc tgt (cand_sega sc k))
           (sc2\<lparr>superblock := (superblock sc2)\<lparr>seg_free_cnt := seg_free_cnt (superblock sc2) - 1\<rparr>\<rparr>))"

section \<open>The live superblock, as the spec describes it\<close>

text \<open>
  Sector \<open>j\<close> of the device read as a superblock; the generation chain from sector 0
  up to sector \<open>k\<close>; the last sector of the maximal chain within the first segment.
\<close>

definition sb_at :: "(u32 \<Rightarrow> sector) \<Rightarrow> nat \<Rightarrow> superblock" where
  "sb_at d j = sb_view (d (of_nat j))"

definition chain_upto :: "(u32 \<Rightarrow> sector) \<Rightarrow> nat \<Rightarrow> bool" where
  "chain_upto d k \<longleftrightarrow>
     (\<forall>j\<le>k. sig (sb_at d j) = SIG_LOGSTOR)
     \<and> (\<forall>j<k. sb_gen (sb_at d (Suc j)) = sb_gen (sb_at d j) + 1)"

definition live_sb :: "(u32 \<Rightarrow> sector) \<Rightarrow> nat \<Rightarrow> bool" where
  "live_sb d k \<longleftrightarrow>
     k < SECTORS_PER_SEG \<and> chain_upto d k
     \<and> (Suc k < SECTORS_PER_SEG \<longrightarrow> \<not> chain_upto d (Suc k))"

text \<open>The state after sector \<open>k\<close> was selected, before \<^verbatim>\<open>seg_age\<close> is copied.\<close>

definition sb_selected :: "softc \<Rightarrow> nat \<Rightarrow> softc" where
  "sb_selected sc k =
     sc\<lparr>sb_sa := of_nat k, superblock := sb_at (disk sc) k, sb_modified := False\<rparr>"

text \<open>
  When the final \<^verbatim>\<open>memcpy\<close> of \<^verbatim>\<open>seg_cnt\<close> bytes leaves the sector buffer or the
  array \<^verbatim>\<open>sc->seg_age\<close>.
\<close>

definition seg_age_copy_bad :: "softc \<Rightarrow> superblock \<Rightarrow> bool" where
  "seg_age_copy_bad sc sb \<longleftrightarrow>
     seg_cnt sb < 0 \<or> int SECTOR_SIZE < int SIZEOF_SUPERBLOCK + seg_cnt sb
     \<or> (seg_age sc \<noteq> [] \<and> length (seg_age sc) < nat (seg_cnt sb))"

section \<open>The order of the write path, as the spec describes it\<close>

text \<open>
  The events that a run adds to the log. The cache adds, when it writes a dirty fbuf
  out, the events of \<open>is_flush\<close>: the metadata write, and the summary write and the
  segment allocation when that write fills the segment. \<open>flushes\<close> holds of two states
  when the log of the second is that of the first followed by such events only.
\<close>

definition new_events :: "softc \<Rightarrow> softc \<Rightarrow> event list" where
  "new_events sc sc' = drop (length (io_log sc)) (io_log sc')"

fun is_flush :: "event \<Rightarrow> bool" where
  "is_flush (MetaWrite sa m) = True"
| "is_flush (SumWrite f sa) = True"
| "is_flush (SegAlloc f g) = True"
| "is_flush e = False"

definition flushes :: "softc \<Rightarrow> softc \<Rightarrow> bool" where
  "flushes sc sc' \<longleftrightarrow> (\<exists>fl. io_log sc' = io_log sc @ fl \<and> list_all is_flush fl)"

text \<open>
  The steps of the claim for \<open>n\<close> blocks from block address \<open>b\<close> on, written through the
  front \<open>f\<close> whose segment is \<open>g\<close> and whose \<^verbatim>\<open>ss_alloc_p\<close> is \<open>p\<close>, as a shape of the log
  \<open>l\<close>: first the data write of \<open>n\<close> sectors at \<open>sega2sa g + p\<close>; then the \<open>n\<close> reverse-map
  entries, slot \<open>p + i\<close> for block \<open>b + i\<close> (\<open>rm_events\<close>); then, exactly when \<open>p + n\<close> is
  \<^verbatim>\<open>SEG_SUM_OFF\<close>, the summary write of segment \<open>g\<close>, a segment allocation for \<open>f\<close> and
  \<^verbatim>\<open>clean_check\<close> (\<open>seg_full_part\<close>); and last the \<open>n\<close> forward-map updates of
  \<^verbatim>\<open>FD_ACTIVE\<close>, block \<open>b + i\<close> to sector \<open>sega2sa g + p + i\<close>, in order, each after the
  writes of the cache that its lookup caused, and nothing after the last (\<open>fwd_part\<close>).
\<close>

fun fwd_part :: "nat \<Rightarrow> u32 \<Rightarrow> u32 \<Rightarrow> event list \<Rightarrow> bool" where
  "fwd_part 0 b s l = (l = [])"
| "fwd_part (Suc n) b s l =
     (case dropWhile is_flush l of
        [] \<Rightarrow> False
      | e # rest \<Rightarrow> e = FwdWrite FD_ACTIVE b s \<and> fwd_part n (b + 1) (s + 1) rest)"

definition rm_events :: "front \<Rightarrow> u32 \<Rightarrow> nat \<Rightarrow> u32 \<Rightarrow> nat \<Rightarrow> event list" where
  "rm_events f g p b n = map (\<lambda>i. RmRecord f g (p + i) (b + of_nat i)) [0..<n]"

fun is_data_write :: "u32 \<Rightarrow> nat \<Rightarrow> event \<Rightarrow> bool" where
  "is_data_write s n (DataWrite s' n' r) = (s' = s \<and> n' = n)"
| "is_data_write s n e = False"

fun is_seg_alloc :: "front \<Rightarrow> event \<Rightarrow> bool" where
  "is_seg_alloc f (SegAlloc f' g) = (f' = f)"
| "is_seg_alloc f e = False"

definition seg_full_part :: "front \<Rightarrow> u32 \<Rightarrow> event list \<Rightarrow> bool" where
  "seg_full_part f ssa m =
     (length m = 3 \<and> m ! 0 = SumWrite f ssa \<and> is_seg_alloc f (m ! 1) \<and> m ! 2 = CleanCheck)"

definition chunk_log :: "front \<Rightarrow> u32 \<Rightarrow> nat \<Rightarrow> u32 \<Rightarrow> nat \<Rightarrow> event list \<Rightarrow> bool" where
  "chunk_log f g p b n l =
     (case l of
        [] \<Rightarrow> False
      | e # l1 \<Rightarrow>
          is_data_write (sega2sa g + of_nat p) n e \<and> n \<le> length l1
          \<and> take n l1 = rm_events f g p b n
          \<and> (if p + n = SEG_SUM_OFF
             then seg_full_part f (sega2sa g + of_nat SEG_SUM_OFF) (take 3 (drop n l1))
                  \<and> fwd_part n b (sega2sa g + of_nat p) (drop (n + 3) l1)
             else fwd_part n b (sega2sa g + of_nat p) (drop n l1)))"

text \<open>
  A log in which no forward-map update comes before its reverse-map entry: every
  forward-map update of a block to a sector has, among the events \<open>seen\<close> before it, the
  recording of that block in the reverse-map slot of that sector.
\<close>

definition recorded :: "event list \<Rightarrow> u32 \<Rightarrow> u32 \<Rightarrow> bool" where
  "recorded seen b s =
     list_ex (\<lambda>e. case e of RmRecord f g p b' \<Rightarrow> b' = b \<and> sega2sa g + of_nat p = s
                   | _ \<Rightarrow> False) seen"

fun order_ok :: "event list \<Rightarrow> event list \<Rightarrow> bool" where
  "order_ok seen [] = True"
| "order_ok seen (e # l) =
     ((case e of FwdWrite fd b s \<Rightarrow> recorded seen b s | _ \<Rightarrow> True)
      \<and> order_ok (seen @ [e]) l)"

text \<open>
  Whether the device takes all of the \<open>n\<close> sectors from \<open>sa\<close> on; the sector address at
  which the front \<open>f\<close> writes next; the forward-map updates among the events, and the
  updates of \<open>n\<close> blocks from \<open>b\<close> on to the sectors from \<open>s\<close> on.
\<close>

fun data_ok :: "softc \<Rightarrow> u32 \<Rightarrow> nat \<Rightarrow> bool" where
  "data_ok sc sa 0 = True"
| "data_ok sc sa (Suc n) = (\<not> wr_fault sc sa \<and> data_ok sc (sa + 1) n)"

definition front_sa :: "front \<Rightarrow> softc \<Rightarrow> u32" where
  "front_sa f sc = sega2sa (sega (front_sum f sc)) + ucast (ss_alloc_p (front_sum f sc))"

fun is_fwd :: "event \<Rightarrow> bool" where
  "is_fwd (FwdWrite fd b s) = True"
| "is_fwd e = False"

definition fwd_updates :: "u32 \<Rightarrow> u32 \<Rightarrow> nat \<Rightarrow> event list" where
  "fwd_updates b s n = map (\<lambda>i. FwdWrite FD_ACTIVE (b + of_nat i) (s + of_nat i)) [0..<n]"

section \<open>Transfers of a superblock sector that return\<close>

text \<open>
  What the superblock manager is given when a transfer returns: \<open>R\<close> hands over the
  sector that the device holds, and \<open>W\<close> leaves the device as the write of the sector
  leaves it. The errno they return is free. \<open>xfer_read\<close> and \<open>xfer_write\<close> are such
  transfers.
\<close>

definition hands_over :: "(softc \<Rightarrow> u32 \<Rightarrow> (int \<times> sector) res) \<Rightarrow> softc \<Rightarrow> bool" where
  "hands_over R sc \<longleftrightarrow> (\<forall>sa. \<exists>e. R sc sa = ok (e, disk sc sa))"

definition writes_out :: "(softc \<Rightarrow> u32 \<Rightarrow> sector \<Rightarrow> (int \<times> softc) res) \<Rightarrow> bool" where
  "writes_out W \<longleftrightarrow> (\<forall>sc sa sec. \<exists>e. W sc sa sec = ok (e, snd (dev_write sc sa sec)))"

definition xfer_read :: "softc \<Rightarrow> u32 \<Rightarrow> (int \<times> sector) res" where
  "xfer_read sc sa = ok (0, disk sc sa)"

definition xfer_write :: "softc \<Rightarrow> u32 \<Rightarrow> sector \<Rightarrow> (int \<times> softc) res" where
  "xfer_write sc sa sec = ok (dev_write sc sa sec)"

section \<open>Concrete devices and states\<close>

definition MiB16 :: int where
  "MiB16 = 16 * 1024 * 1024"

definition blank_disk :: "u32 \<Rightarrow> sector" where
  "blank_disk sa i = 0"

definition no_fault :: "u32 \<Rightarrow> bool" where
  "no_fault sa = False"

definition dev16 :: softc where
  "dev16 = softc_zero MiB16 blank_disk no_fault"

definition free_cnt_of :: "int \<times> softc \<Rightarrow> int" where
  "free_cnt_of r = seg_free_cnt (superblock (snd r))"

text \<open>
  Eight segments with the cold front in segment 1: the allocation pointer stands at
  \<open>p\<close>, the reclaim pointer at \<open>r\<close>, the hot front is in segment \<open>hot\<close>.
\<close>

definition pool8 :: "int \<Rightarrow> int \<Rightarrow> u8 list \<Rightarrow> u32 \<Rightarrow> softc" where
  "pool8 p r ages hot =
     (softc_zero (32 * 1024 * 1024) blank_disk no_fault)
       \<lparr>seg_sum_cold := seg_sum_zero\<lparr>sega := 1\<rparr>, seg_sum_hot := seg_sum_zero\<lparr>sega := hot\<rparr>,
        seg_age := ages,
        superblock := \<lparr>sig = SIG_LOGSTOR, ver_major = 0, ver_minor = 1, sb_gen = 0,
                       max_block_cnt = 6000, seg_cnt = 8, seg_free_cnt = 4, seg_alloc_p = p,
                       seg_reclaim_p = r, ftab = [0, 0, 0]\<rparr>\<rparr>"

text \<open>
  Superblocks of a device of four segments: generation \<open>g\<close>, allocation pointer \<open>p\<close>.
  \<open>disk_chain\<close> holds generation 7 in sector 0 and generation 8 in sector 1;
  \<open>disk_bad0\<close> is the same but for the allocation pointer of sector 0, which is 4.
\<close>

definition sb4 :: "u16 \<Rightarrow> int \<Rightarrow> superblock" where
  "sb4 g p =
     \<lparr>sig = SIG_LOGSTOR, ver_major = 0, ver_minor = 1, sb_gen = g, max_block_cnt = 2751,
      seg_cnt = 4, seg_free_cnt = 3, seg_alloc_p = p, seg_reclaim_p = 1, ftab = [0, 0, 0]\<rparr>"

definition disk_chain :: "u32 \<Rightarrow> sector" where
  "disk_chain sa =
     (if sa = 0 then sb_image (sb4 7 1) [0, 0, 0, 0]
      else if sa = 1 then sb_image (sb4 8 3) [0, 0, 0, 0]
      else (\<lambda>i. 0))"

definition disk_bad0 :: "u32 \<Rightarrow> sector" where
  "disk_bad0 sa =
     (if sa = 0 then sb_image (sb4 7 4) [0, 0, 0, 0]
      else if sa = 1 then sb_image (sb4 8 3) [0, 0, 0, 0]
      else (\<lambda>i. 0))"

definition rc_of :: "int \<times> softc \<Rightarrow> int" where
  "rc_of r = fst r"

definition sb_sa_of :: "int \<times> softc \<Rightarrow> u32" where
  "sb_sa_of r = sb_sa (snd r)"

text \<open>
  A device of 20 MiB (five segments, three fbufs) in the state in which the statements
  of \<^verbatim>\<open>logstor_open\<close> leave it when the transfers of the superblock sector return.
\<close>

definition dev20 :: softc where
  "dev20 = softc_zero (20 * 1024 * 1024) blank_disk no_fault"

definition opened :: "softc \<Rightarrow> softc res" where
  "opened sc = res_map snd (logstor_open_via xfer_read xfer_write sc 0)"

definition read_ops :: "u32 \<Rightarrow> nat \<Rightarrow> softc \<Rightarrow> rop list res" where
  "read_ops ba sz sc = res_map fst (logstor_read sc ba sz)"

text \<open>
  The state after blocks 0 and 1 were written and block 0 was written again, on the
  opened 20 MiB device with a cleaner that does nothing; the live count of the hot
  summary in that state.
\<close>

definition no_cleaner :: "softc \<Rightarrow> softc res" where
  "no_cleaner sc = ok sc"

definition zero_payload :: "nat \<Rightarrow> sector" where
  "zero_payload pos i = 0"

definition write_blocks :: "u32 \<Rightarrow> int \<Rightarrow> softc \<Rightarrow> softc res" where
  "write_blocks ba sz sc = res_map snd (logstor_write no_cleaner sc ba sz zero_payload)"

definition wr010 :: "softc res" where
  "wr010 = bnd (bnd (opened dev20) (write_blocks 0 2)) (write_blocks 0 1)"

definition the_ok :: "'a \<Rightarrow> 'a res \<Rightarrow> 'a" where
  "the_ok d r = (case r of Some (Inr x) \<Rightarrow> x | _ \<Rightarrow> d)"

definition st010 :: softc where
  "st010 = the_ok dev20 wr010"

text \<open>The state after blocks 0 and 1 were written on the same device.\<close>

definition wr01 :: "softc res" where
  "wr01 = bnd (opened dev20) (write_blocks 0 2)"

definition st01 :: softc where
  "st01 = the_ok dev20 wr01"

definition live_count_of :: "seg_sum \<times> softc \<Rightarrow> u32" where
  "live_count_of r = live_count (fst r)"

text \<open>The liveness flags of the slots of the hot summary that are in use.\<close>

definition hot_flags :: "softc \<Rightarrow> bool list res" where
  "hot_flags s = res_map fst (live_flags (unat (ss_alloc_p (seg_sum_hot s))) s (seg_sum_hot s) 0)"

text \<open>
  What a single-block write, a round of the loop and a whole write through the hot
  front add to the log of a state, with the \<^verbatim>\<open>int\<close> they return. \<open>hot_full\<close> is a state
  with one sector left in the hot segment.
\<close>

definition one_events :: "u32 \<Rightarrow> softc \<Rightarrow> (int \<times> event list) res" where
  "one_events ba s =
     res_map (\<lambda>x. (fst x, new_events s (snd x))) (logstor_write_one no_cleaner s ba Hot zero_payload)"

definition round_events_of :: "u32 \<Rightarrow> int \<Rightarrow> softc \<Rightarrow> (int \<times> event list) res" where
  "round_events_of ba n s =
     res_map (\<lambda>x. (fst x, new_events s (snd x))) (write_round no_cleaner Hot zero_payload s ba n 0)"

definition write_events :: "u32 \<Rightarrow> int \<Rightarrow> softc \<Rightarrow> (int \<times> event list) res" where
  "write_events ba n s =
     res_map (\<lambda>x. (fst x, new_events s (snd x))) (logstor_write no_cleaner s ba n zero_payload)"

definition hot_full :: "softc \<Rightarrow> softc" where
  "hot_full s = s\<lparr>seg_sum_hot := (seg_sum_hot s)\<lparr>ss_alloc_p := 1022\<rparr>\<rparr>"

text \<open>
  The 20 MiB device with a sector 2048 (the first of segment 2) that fails every write
  with \<^verbatim>\<open>EIO\<close>, in the state after open; the forward-map entry of a block.
\<close>

definition fault_2048 :: "u32 \<Rightarrow> bool" where
  "fault_2048 sa \<longleftrightarrow> sa = 2048"

definition dev20f :: softc where
  "dev20f = softc_zero (20 * 1024 * 1024) blank_disk fault_2048"

definition opf :: "softc res" where
  "opf = opened dev20f"

definition stf :: softc where
  "stf = the_ok dev20f opf"

definition fm_lookup :: "u32 \<Rightarrow> softc \<Rightarrow> u32 res" where
  "fm_lookup ba s = res_map fst (file_read_4byte s FD_ACTIVE ba)"


section \<open>Geometry\<close>

lemma sector_size_forced:
  "4 * (SEG_SIZE div s - 1) + 4 = s \<longleftrightarrow> s = 4096"
proof
  assume a: "4 * (SEG_SIZE div s - 1) + 4 = s"
  show "s = 4096"
  proof (rule ccontr)
    assume "s \<noteq> 4096"
    then consider "s = 0" | "0 < s" "s < 4096" | "4096 < s" by linarith
    then show False
    proof cases
      case 1
      with a show False by simp
    next
      case 2
      then have "SEG_SIZE div 4095 \<le> SEG_SIZE div s"
        by (intro div_le_mono2) simp_all
      with a 2 show False by (simp add: SEG_SIZE_def)
    next
      case 3
      then have "SEG_SIZE div s \<le> SEG_SIZE div 4097"
        by (intro div_le_mono2) simp_all
      with a 3 show False by (simp add: SEG_SIZE_def)
    qed
  qed
next
  assume "s = 4096"
  then show "4 * (SEG_SIZE div s - 1) + 4 = s" by (simp add: SEG_SIZE_def)
qed

section \<open>Results\<close>

lemma bnd_ok [simp]: "bnd (ok x) f = f x"
  by (simp add: bnd_def ok_def)

lemma bnd_fail [simp]: "bnd (fail e) f = fail e"
  by (simp add: bnd_def fail_def)

lemma bnd_None [simp]: "bnd None f = None"
  by (simp add: bnd_def)

lemma ok_neq [simp]: "ok x \<noteq> fail e" "fail e \<noteq> ok x" "ok x \<noteq> None" "fail e \<noteq> None"
  "None \<noteq> ok x" "None \<noteq> fail e"
  by (simp_all add: ok_def fail_def)

lemma ok_inject [simp]: "ok x = ok y \<longleftrightarrow> x = y"
  by (simp add: ok_def)

lemma fail_inject [simp]: "fail e = fail e' \<longleftrightarrow> e = e'"
  by (simp add: fail_def)

lemma MY_ASSERT_simps [simp]: "MY_ASSERT True k = k" "MY_ASSERT False k = fail AssertFailed"
  by (simp_all add: MY_ASSERT_def)

lemma bnd_assoc: "bnd (bnd m f) g = bnd m (\<lambda>x. bnd (f x) g)"
  by (simp add: bnd_def split: option.splits sum.splits)

lemma bnd_weak_cong: "m = m' \<Longrightarrow> bnd m f = bnd m' f"
  by simp

lemma bnd_cong: "(\<And>x. m = ok x \<Longrightarrow> f x = g x) \<Longrightarrow> bnd m f = bnd m g"
  by (auto simp: bnd_def ok_def split: option.splits sum.splits)

lemma bnd_ok_right [simp]: "bnd m ok = m"
  by (simp add: bnd_def ok_def split: option.splits sum.splits)

lemma bnd_eq_ok:
  "bnd m f = ok y \<longleftrightarrow> (\<exists>x. m = ok x \<and> f x = ok y)"
  by (auto simp: bnd_def ok_def split: option.splits sum.splits)

section \<open>Segment allocator\<close>

lemma cand_advance: "cand (advance sc) k = cand sc (Suc k)"
  by (simp add: cand_def advance_def funpow_swap1)

lemma advance_fields [simp]:
  "seg_age (advance sc) = seg_age sc" "seg_sum_hot (advance sc) = seg_sum_hot sc"
  "seg_sum_cold (advance sc) = seg_sum_cold sc"
  "seg_cnt (superblock (advance sc)) = seg_cnt (superblock sc)"
  "seg_reclaim_p (superblock (advance sc)) = seg_reclaim_p (superblock sc)"
  "seg_free_cnt (superblock (advance sc)) = seg_free_cnt (superblock sc)"
  by (simp_all add: advance_def)

lemma advance_preds:
  "cand_trips (advance sc) k = cand_trips sc (Suc k)"
  "cand_free (advance sc) k = cand_free sc (Suc k)"
  "cand_skipped (advance sc) k = cand_skipped sc (Suc k)"
  by (simp_all add: cand_trips_def cand_free_def cand_skipped_def cand_sega_def cand_advance)

lemma advance_funpow_fields [simp]:
  "seg_age ((advance ^^ k) sc) = seg_age sc"
  "seg_sum_hot ((advance ^^ k) sc) = seg_sum_hot sc"
  "seg_sum_cold ((advance ^^ k) sc) = seg_sum_cold sc"
  "seg_cnt (superblock ((advance ^^ k) sc)) = seg_cnt (superblock sc)"
  "seg_reclaim_p (superblock ((advance ^^ k) sc)) = seg_reclaim_p (superblock sc)"
  "seg_free_cnt (superblock ((advance ^^ k) sc)) = seg_free_cnt (superblock sc)"
  by (induction k) simp_all

lemma advance_funpow_alloc_p:
  "seg_alloc_p (superblock ((advance ^^ k) sc)) = cand sc k"
proof (induction k arbitrary: sc)
  case 0
  then show ?case by (simp add: cand_def)
next
  case (Suc k)
  have "seg_alloc_p (superblock ((advance ^^ k) (advance sc))) = cand (advance sc) k"
    by (rule Suc.IH)
  then show ?case by (simp add: funpow_swap1 cand_advance)
qed

lemma again_skip:
  assumes "\<not> cand_trips sc 0" "cand_skipped sc 0"
  shows "seg_alloc_again sc (sega (seg_sum_cold sc)) (sega (seg_sum_hot sc)) =
         seg_alloc_again (advance sc) (sega (seg_sum_cold sc)) (sega (seg_sum_hot sc))"
  using assms
  apply (subst seg_alloc_again.simps)
  apply (auto simp: cand_trips_def cand_skipped_def cand_sega_def cand_def seg_next_def
                    advance_def Let_def)
  done

lemma again_free:
  assumes "\<not> cand_trips sc 0" "cand_free sc 0"
  shows "seg_alloc_again sc (sega (seg_sum_cold sc)) (sega (seg_sum_hot sc)) =
         ok (cand_sega sc 0, advance sc)"
  using assms
  apply (subst seg_alloc_again.simps)
  apply (auto simp: cand_trips_def cand_free_def cand_sega_def cand_def seg_next_def
                    advance_def Let_def)
  done

lemma again_hot:
  assumes "cand sc 0 + 1 < 2 ^ 31" "cand_sega sc 0 = sega (seg_sum_hot sc)"
  shows "seg_alloc_again sc (sega (seg_sum_cold sc)) (sega (seg_sum_hot sc)) = fail AssertFailed"
  using assms
  apply (subst seg_alloc_again.simps)
  apply (auto simp: cand_sega_def cand_def Let_def)
  done

lemma again_first_free:
  "\<forall>j\<le>k. \<not> cand_trips sc j \<Longrightarrow> \<forall>j<k. cand_skipped sc j \<Longrightarrow> cand_free sc k \<Longrightarrow>
   seg_alloc_again sc (sega (seg_sum_cold sc)) (sega (seg_sum_hot sc)) =
     ok (cand_sega sc k, (advance ^^ Suc k) sc)"
proof (induction k arbitrary: sc)
  case 0
  then show ?case by (simp add: again_free)
next
  case (Suc k)
  have "seg_alloc_again (advance sc) (sega (seg_sum_cold (advance sc)))
          (sega (seg_sum_hot (advance sc)))
        = ok (cand_sega (advance sc) k, (advance ^^ Suc k) (advance sc))"
    using Suc.prems by (intro Suc.IH) (auto simp: advance_preds)
  moreover have "cand_sega (advance sc) k = cand_sega sc (Suc k)"
    by (simp add: cand_sega_def cand_advance)
  ultimately show ?case
    using Suc.prems by (simp add: again_skip funpow_swap1)
qed

lemma again_first_hot:
  "\<forall>j<k. \<not> cand_trips sc j \<and> cand_skipped sc j \<Longrightarrow> cand sc k + 1 < 2 ^ 31 \<Longrightarrow>
   cand_sega sc k = sega (seg_sum_hot sc) \<Longrightarrow>
   seg_alloc_again sc (sega (seg_sum_cold sc)) (sega (seg_sum_hot sc)) = fail AssertFailed"
proof (induction k arbitrary: sc)
  case 0
  then show ?case by (simp add: again_hot)
next
  case (Suc k)
  have "seg_alloc_again (advance sc) (sega (seg_sum_cold (advance sc)))
          (sega (seg_sum_hot (advance sc)))
        = fail AssertFailed"
    using Suc.prems by (intro Suc.IH) (auto simp: advance_preds cand_advance cand_sega_def)
  then show ?case
    using Suc.prems by (simp add: again_skip)
qed

lemma again_never:
  assumes "\<forall>j. \<not> cand_trips sc j \<and> cand_skipped sc j"
  shows "seg_alloc_again sc (sega (seg_sum_cold sc)) (sega (seg_sum_hot sc)) = None"
proof (rule ccontr)
  assume "seg_alloc_again sc (sega (seg_sum_cold sc)) (sega (seg_sum_hot sc)) \<noteq> None"
  then obtain y where
    y: "seg_alloc_again sc (sega (seg_sum_cold sc)) (sega (seg_sum_hot sc)) = Some y"
    by auto
  let ?P = "\<lambda>s c h (r :: error + u32 \<times> softc).
     \<not> (c = sega (seg_sum_cold s) \<and> h = sega (seg_sum_hot s)
        \<and> (\<forall>j. \<not> cand_trips s j \<and> cand_skipped s j))"
  have "?P sc (sega (seg_sum_cold sc)) (sega (seg_sum_hot sc)) y"
  proof (rule seg_alloc_again.raw_induct[where P = ?P, OF _ y])
    fix f s c h r
    assume IH: "\<And>s' c' h' r'. f s' c' h' = Some r' \<Longrightarrow> ?P s' c' h' r'"
    assume step: "(let p = seg_alloc_p (superblock s); x = word_of_int p
      in if 2 ^ 31 \<le> p + 1 then fail Undefined
         else let p' = if p + 1 = seg_cnt (superblock s) then SEG_DATA_START else p + 1;
                  sc' = s\<lparr>superblock := superblock s\<lparr>seg_alloc_p := p'\<rparr>\<rparr>
              in if \<not> p' < seg_cnt (superblock s) then fail AssertFailed
                 else if \<not> p' + 1 \<noteq> seg_reclaim_p (superblock s) then fail AssertFailed
                 else if \<not> x \<noteq> h then fail AssertFailed
                 else if x = c then f sc' c h
                 else if \<not> unat x < length (seg_age s) then fail Undefined
                 else if seg_age s ! unat x \<noteq> 0 then f sc' c h else ok (x, sc')) = Some r"
    show "?P s c h r"
    proof
      assume a: "c = sega (seg_sum_cold s) \<and> h = sega (seg_sum_hot s)
                 \<and> (\<forall>j. \<not> cand_trips s j \<and> cand_skipped s j)"
      then have t0: "\<not> cand_trips s 0" and s0: "cand_skipped s 0" by auto
      have adv: "\<forall>j. \<not> cand_trips (advance s) j \<and> cand_skipped (advance s) j"
        using a by (simp add: advance_preds)
      from step t0 s0 a have "f (advance s) c h = Some r"
        by (auto simp: cand_trips_def cand_skipped_def cand_sega_def cand_def seg_next_def
                       advance_def Let_def fail_def ok_def split: if_splits)
      from IH[OF this] adv a show False by simp
    qed
  qed
  with assms show False by simp
qed

lemma seg_alloc_taken_fields:
  "sega (front_sum tgt (seg_alloc_taken sc tgt k)) = cand_sega sc k"
  "ss_alloc_p (front_sum tgt (seg_alloc_taken sc tgt k)) = 0"
  "seg_free_cnt (superblock (seg_alloc_taken sc tgt k)) = seg_free_cnt (superblock sc) - 1"
  "seg_alloc_p (superblock (seg_alloc_taken sc tgt k)) = cand sc (Suc k)"
  "seg_age (seg_alloc_taken sc tgt k) = seg_age sc"
  by (cases tgt; simp add: seg_alloc_taken_def Let_def front_sum_def front_upd_def log_ev_def
        advance_funpow_alloc_p del: funpow.simps)+

text \<open>
  C4 (amended). \<^verbatim>\<open>seg_alloc\<close> walks \<^verbatim>\<open>seg_alloc_p\<close> circularly, wrapping to
  \<^verbatim>\<open>SEG_DATA_START\<close>, and skips a candidate that is the cold front's segment or whose
  \<^verbatim>\<open>seg_age\<close> is nonzero. A candidate that is the hot front's segment is not skipped: the
  walk stops there with a failed assertion. When the walk reaches, with no assertion
  tripped, the first candidate of age 0 that is not the cold segment, and more than one
  segment is free, \<^verbatim>\<open>seg_alloc\<close> binds it to the target summary, resets \<^verbatim>\<open>ss_alloc_p\<close> to 0
  and decrements \<^verbatim>\<open>seg_free_cnt\<close> by one. There is no \<^verbatim>\<open>NoSpace\<close> result: a pool in
  which every candidate is skipped for ever, with no assertion tripped, keeps
  \<^verbatim>\<open>seg_alloc\<close> from returning.
\<close>

theorem seg_alloc_walk:
  "((\<forall>j<k. \<not> cand_trips sc j \<and> cand_skipped sc j) \<longrightarrow>
      (\<not> cand_trips sc k \<and> cand_free sc k \<and> 1 < seg_free_cnt (superblock sc)
         \<and> seg_free_cnt (superblock sc) \<le> seg_cnt (superblock sc)
       \<longrightarrow> seg_alloc sc tgt = ok (seg_alloc_taken sc tgt k)
           \<and> sega (front_sum tgt (seg_alloc_taken sc tgt k)) = cand_sega sc k
           \<and> ss_alloc_p (front_sum tgt (seg_alloc_taken sc tgt k)) = 0
           \<and> seg_free_cnt (superblock (seg_alloc_taken sc tgt k)) = seg_free_cnt (superblock sc) - 1)
      \<and> (cand sc k + 1 < 2 ^ 31 \<and> cand_sega sc k = sega (seg_sum_hot sc)
         \<longrightarrow> seg_alloc sc tgt = fail AssertFailed))
   \<and> ((\<forall>j. \<not> cand_trips sc j \<and> cand_skipped sc j) \<longrightarrow> seg_alloc sc tgt = None)"
proof (intro conjI impI)
  assume skip: "\<forall>j<k. \<not> cand_trips sc j \<and> cand_skipped sc j"
    and free: "\<not> cand_trips sc k \<and> cand_free sc k \<and> 1 < seg_free_cnt (superblock sc)
         \<and> seg_free_cnt (superblock sc) \<le> seg_cnt (superblock sc)"
  have "\<forall>j\<le>k. \<not> cand_trips sc j"
    using skip free by (auto simp: le_less)
  then have "seg_alloc_again sc (sega (seg_sum_cold sc)) (sega (seg_sum_hot sc)) =
     ok (cand_sega sc k, (advance ^^ Suc k) sc)"
    using skip free by (intro again_first_free) auto
  then show "seg_alloc sc tgt = ok (seg_alloc_taken sc tgt k)"
    using free
    by (cases tgt; simp add: seg_alloc_def seg_alloc_taken_def Let_def front_upd_def del: funpow.simps)
next
  assume "\<forall>j<k. \<not> cand_trips sc j \<and> cand_skipped sc j"
    and "cand sc k + 1 < 2 ^ 31 \<and> cand_sega sc k = sega (seg_sum_hot sc)"
  then have "seg_alloc_again sc (sega (seg_sum_cold sc)) (sega (seg_sum_hot sc)) = fail AssertFailed"
    by (intro again_first_hot) auto
  then show "seg_alloc sc tgt = fail AssertFailed"
    by (simp add: seg_alloc_def)
next
  assume "\<forall>j. \<not> cand_trips sc j \<and> cand_skipped sc j"
  then have "seg_alloc_again sc (sega (seg_sum_cold sc)) (sega (seg_sum_hot sc)) = None"
    by (rule again_never)
  then show "seg_alloc sc tgt = None"
    by (simp add: seg_alloc_def)
qed (simp_all add: seg_alloc_taken_fields)

lemma pool8_fields [simp]:
  "seg_cnt (superblock (pool8 p r ages hot)) = 8"
  "seg_alloc_p (superblock (pool8 p r ages hot)) = p"
  "seg_reclaim_p (superblock (pool8 p r ages hot)) = r"
  "seg_free_cnt (superblock (pool8 p r ages hot)) = 4"
  "seg_age (pool8 p r ages hot) = ages"
  "sega (seg_sum_cold (pool8 p r ages hot)) = 1"
  "sega (seg_sum_hot (pool8 p r ages hot)) = hot"
  by (simp_all add: pool8_def softc_zero_def seg_sum_zero_def)

lemma cand_Suc: "cand sc (Suc k) = seg_next (seg_cnt (superblock sc)) (cand sc k)"
  by (simp add: cand_def)

lemma cand_0: "cand sc 0 = seg_alloc_p (superblock sc)"
  by (simp add: cand_def)

lemma pool8_cand_range:
  "1 \<le> p \<Longrightarrow> p \<le> 7 \<Longrightarrow> 1 \<le> cand (pool8 p r ages hot) k \<and> cand (pool8 p r ages hot) k \<le> 7"
  by (induction k) (auto simp: cand_0 cand_Suc seg_next_def SEG_DATA_START_def)

lemma unat_small: "0 \<le> x \<Longrightarrow> x < 2 ^ 32 \<Longrightarrow> unat (word_of_int x :: u32) = nat x"
  by (simp add: unat_eq_nat_uint word_of_int_inverse[OF refl] take_bit_int_eq_self)

text \<open>
  The three cases of C4 on a pool of eight segments: the walk from 5 skips the aged
  segments 5 and 6 and takes 7; the walk from 1 skips the cold segment 1 and stops at the
  hot segment 2; with every segment aged and the hot front not yet bound the walk never
  ends.
\<close>

theorem seg_alloc_walk_witness:
  "seg_alloc (pool8 5 5 [0, 0, 0, 0, 0, 1, 1, 0] 2) Hot
     = ok (seg_alloc_taken (pool8 5 5 [0, 0, 0, 0, 0, 1, 1, 0] 2) Hot (Suc (Suc 0)))
   \<and> sega (front_sum Hot (seg_alloc_taken (pool8 5 5 [0, 0, 0, 0, 0, 1, 1, 0] 2) Hot (Suc (Suc 0)))) = 7
   \<and> seg_alloc (pool8 1 5 (replicate 8 0) 2) Cold = fail AssertFailed
   \<and> seg_alloc (pool8 1 1 (replicate 8 1) 0) Cold = None"
proof -
  let ?a = "pool8 5 5 [0, 0, 0, 0, 0, 1, 1, 0] 2"
  let ?b = "pool8 1 5 (replicate 8 0) 2"
  let ?c = "pool8 1 1 (replicate 8 1) 0"
  have ca: "cand ?a 0 = 5" "cand ?a (Suc 0) = 6" "cand ?a (Suc (Suc 0)) = 7"
    "cand ?a (Suc (Suc (Suc 0))) = 1"
    by (simp_all add: cand_def seg_next_def SEG_DATA_START_def)
  have a1: "\<forall>j<Suc (Suc 0). \<not> cand_trips ?a j \<and> cand_skipped ?a j"
    using ca by (simp add: less_Suc_eq cand_trips_def cand_skipped_def cand_sega_def)
  have a2: "\<not> cand_trips ?a (Suc (Suc 0)) \<and> cand_free ?a (Suc (Suc 0))
         \<and> 1 < seg_free_cnt (superblock ?a)
         \<and> seg_free_cnt (superblock ?a) \<le> seg_cnt (superblock ?a)"
    using ca by (simp add: cand_trips_def cand_free_def cand_sega_def)
  have cb: "cand ?b 0 = 1" "cand ?b (Suc 0) = 2"
    by (simp_all add: cand_def seg_next_def SEG_DATA_START_def)
  have b1: "\<forall>j<Suc 0. \<not> cand_trips ?b j \<and> cand_skipped ?b j"
    using cb by (simp add: cand_trips_def cand_skipped_def cand_sega_def)
  have b2: "cand ?b (Suc 0) + 1 < 2 ^ 31 \<and> cand_sega ?b (Suc 0) = sega (seg_sum_hot ?b)"
    using cb by (simp add: cand_sega_def)
  have c: "\<forall>j. \<not> cand_trips ?c j \<and> cand_skipped ?c j"
  proof
    fix j
    have r: "1 \<le> cand ?c j \<and> cand ?c j \<le> 7" "1 \<le> cand ?c (Suc j) \<and> cand ?c (Suc j) \<le> 7"
      by (rule pool8_cand_range; simp)+
    then have u: "unat (cand_sega ?c j) = nat (cand ?c j)"
      by (simp add: cand_sega_def unat_small)
    have "cand_sega ?c j \<noteq> 0"
    proof
      assume "cand_sega ?c j = 0"
      then have "unat (cand_sega ?c j) = 0" by simp
      with u r show False by simp
    qed
    then show "\<not> cand_trips ?c j \<and> cand_skipped ?c j"
      using r u by (auto simp: cand_trips_def cand_skipped_def)
  qed
  show ?thesis
    using seg_alloc_walk[of "Suc (Suc 0)" ?a Hot] seg_alloc_walk[of "Suc 0" ?b Cold]
      seg_alloc_walk[of 0 ?c Cold] a1 a2 b1 b2 c ca
    by (simp add: cand_sega_def)
qed

text \<open>
  C4 as stated fails: with the allocation pointer on the hot segment 2 and segment 3
  clean, the claim has the walk skip 2 and bind 3; the code stops on its assertion
  \<^verbatim>\<open>MY_ASSERT(sega != sega_hot)\<close>.
\<close>

theorem seg_alloc_hot_counterexample:
  "seg_alloc (pool8 2 5 (replicate 8 0) 2) Cold = fail AssertFailed"
  by (simp add: seg_alloc_def seg_alloc_again.simps pool8_def softc_zero_def seg_sum_zero_def Let_def)

section \<open>Transfers of a superblock sector\<close>

text \<open>
  As the two transfers are written, a read that succeeded stops on the assertion that
  follows it, and a write returns only when it failed; so \<^verbatim>\<open>superblock_read\<close> and
  \<^verbatim>\<open>logstor_open\<close> stop at the first sector.
\<close>

lemma g_logstor_read_superblock_stops:
  "g_logstor_read_superblock sc sa = fail AssertFailed"
  by (simp add: g_logstor_read_superblock_def)

lemma g_logstor_write_superblock_cases:
  "g_logstor_write_superblock sc sa sec =
     (if wr_fault sc sa then ok (EIO, sc) else fail AssertFailed)"
  by (simp add: g_logstor_write_superblock_def dev_write_def EIO_def)

lemma superblock_read_stops: "superblock_read sc = fail AssertFailed"
  by (simp add: superblock_read_def superblock_read_via_def g_logstor_read_superblock_stops)

lemma logstor_open_stops: "logstor_open sc rnd = fail AssertFailed"
  by (simp add: logstor_open_def logstor_open_via_def superblock_read_via_def
        g_logstor_read_superblock_stops)

lemma hands_over_bnd:
  assumes "hands_over R sc"
  shows "bnd (R sc sa) (\<lambda>(error, b). f b) = f (disk sc sa)"
proof -
  from assms obtain e where "R sc sa = ok (e, disk sc sa)"
    unfolding hands_over_def by blast
  then show ?thesis by simp
qed

lemma writes_out_bnd:
  assumes "writes_out W"
  shows "bnd (W sc sa sec) (\<lambda>(error, sc1). f sc1) = f (snd (dev_write sc sa sec))"
proof -
  from assms obtain e where "W sc sa sec = ok (e, snd (dev_write sc sa sec))"
    unfolding writes_out_def by blast
  then show ?thesis by simp
qed

lemma xfer_hands_over: "hands_over xfer_read sc"
  by (simp add: hands_over_def xfer_read_def)

lemma xfer_writes_out: "writes_out xfer_write"
  unfolding writes_out_def xfer_write_def
  by (metis ok_inject prod.collapse)

lemma sb_probe_ge: "i \<le> sb_probe d i g"
proof (induction d i g rule: sb_probe.induct)
  case (1 d i g)
  show ?case
  proof (cases "i < SECTORS_PER_SEG \<and> sig (sb_view (d (of_nat i))) = SIG_LOGSTOR
                \<and> sb_gen (sb_view (d (of_nat i))) = g + 1")
    case True
    then have "sb_probe d i g = sb_probe d (Suc i) (sb_gen (sb_view (d (of_nat i))))"
      by (subst sb_probe.simps) (simp add: Let_def)
    moreover have "Suc i \<le> sb_probe d (Suc i) (sb_gen (sb_view (d (of_nat i))))"
      using True by (intro "1.IH") auto
    ultimately show ?thesis by simp
  next
    case False
    then have "sb_probe d i g = i"
      by (subst sb_probe.simps) (auto simp: Let_def)
    then show ?thesis by simp
  qed
qed

lemma sb_probe_via_hands:
  assumes h: "hands_over R sc"
  shows "sb_probe_via R sc i g prev =
           ok (sb_probe (disk sc) i g,
               if sb_probe (disk sc) i g = i then prev
               else disk sc (of_nat (sb_probe (disk sc) i g - 1)))"
proof (induction "disk sc" i g arbitrary: prev rule: sb_probe.induct)
  case (1 i g)
  let ?b = "disk sc (of_nat i)"
  show ?case
  proof (cases "i < SECTORS_PER_SEG \<and> sig (sb_view ?b) = SIG_LOGSTOR \<and> sb_gen (sb_view ?b) = g + 1")
    case True
    then have p: "sb_probe (disk sc) i g = sb_probe (disk sc) (Suc i) (sb_gen (sb_view ?b))"
      by (subst sb_probe.simps) (simp add: Let_def)
    have ge: "Suc i \<le> sb_probe (disk sc) (Suc i) (sb_gen (sb_view ?b))"
      by (rule sb_probe_ge)
    have "sb_probe_via R sc i g prev = sb_probe_via R sc (Suc i) (sb_gen (sb_view ?b)) ?b"
      using True by (subst sb_probe_via.simps) (simp add: hands_over_bnd[OF h])
    also have "\<dots> = ok (sb_probe (disk sc) (Suc i) (sb_gen (sb_view ?b)),
          if sb_probe (disk sc) (Suc i) (sb_gen (sb_view ?b)) = Suc i then ?b
          else disk sc (of_nat (sb_probe (disk sc) (Suc i) (sb_gen (sb_view ?b)) - 1)))"
      using True by (intro "1.hyps") auto
    finally show ?thesis
      using ge by (auto simp: p)
  next
    case False
    then have p: "sb_probe (disk sc) i g = i"
      by (subst sb_probe.simps) (auto simp: Let_def)
    have "sb_probe_via R sc i g prev = ok (i, prev)"
      using False by (subst sb_probe_via.simps) (auto simp: hands_over_bnd[OF h])
    then show ?thesis by (simp add: p)
  qed
qed

lemma superblock_read_via_hands:
  assumes h: "hands_over R sc"
  shows "superblock_read_via R sc =
     (let sb0 = sb_view (disk sc 0)
      in if sb_invalid sb0 then ok (EINVAL, sc\<lparr>superblock := sb0\<rparr>)
         else
           let i = sb_probe (disk sc) 1 (sb_gen sb0);
               sec = disk sc (of_nat (i - 1));
               sb_in = sb_view sec;
               sc1 = sc\<lparr>sb_sa := of_nat (i - 1), superblock := sb_in, sb_modified := False\<rparr>
           in if sb_invalid sb_in then ok (EINVAL, sc1)
              else if seg_cnt sb_in < 0 \<or> int SECTOR_SIZE < int SIZEOF_SUPERBLOCK + seg_cnt sb_in
                      \<or> (seg_age sc \<noteq> [] \<and> length (seg_age sc) < nat (seg_cnt sb_in))
                   then fail Undefined
              else ok (0, sc1\<lparr>seg_age := seg_age_view sec (nat (seg_cnt sb_in))
                                            @ drop (nat (seg_cnt sb_in)) (seg_age sc)\<rparr>))"
proof -
  have e: "(if sb_probe (disk sc) 1 g = 1 then disk sc 0
            else disk sc (of_nat (sb_probe (disk sc) 1 g - 1)))
           = disk sc (of_nat (sb_probe (disk sc) 1 g - 1))" for g
    by simp
  show ?thesis
    unfolding superblock_read_via_def hands_over_bnd[OF h] sb_probe_via_hands[OF h]
    by (simp add: Let_def e del: One_nat_def)
qed

section \<open>Open on a 16 MiB device\<close>

lemma fold_hash_insert_superblock:
  "superblock (fold (\<lambda>i s. fbuf_hash_insert s i i) xs sc) = superblock sc"
  by (induction xs arbitrary: sc) (simp_all add: fbuf_hash_insert_def)

lemma fold_hash_insert_fronts:
  "seg_sum_cold (fold (\<lambda>i s. fbuf_hash_insert s i i) xs sc) = seg_sum_cold sc"
  "seg_sum_hot (fold (\<lambda>i s. fbuf_hash_insert s i i) xs sc) = seg_sum_hot sc"
  by (induction xs arbitrary: sc) (simp_all add: fbuf_hash_insert_def)

lemma open_16MiB_state:
  assumes r: "hands_over R (softc_zero MiB16 d flt)" and w: "writes_out W"
    and inv: "sb_invalid (sb_view (d 0))"
  shows "\<exists>s. logstor_open_via R W (softc_zero MiB16 d flt) rnd = ok (0, s)
             \<and> seg_cnt (superblock s) = 4 \<and> max_block_cnt (superblock s) = 2751
             \<and> seg_free_cnt (superblock s) = 1
             \<and> sega (seg_sum_cold s) = 1 \<and> sega (seg_sum_hot s) = 2"
proof -
  have d: "disk (softc_zero MiB16 d flt) = d"
    by (simp add: softc_zero_def)
  have sr: "superblock_read_via R (softc_zero MiB16 d flt) =
              ok (EINVAL, (softc_zero MiB16 d flt)\<lparr>superblock := sb_view (d 0)\<rparr>)"
    using inv by (simp add: superblock_read_via_hands[OF r] d)
  show ?thesis
    unfolding logstor_open_via_def sr
    apply (simp add: softc_zero_def EINVAL_def)
    apply (simp add: superblock_init_via_def writes_out_bnd[OF w] geometry_defs Let_def
                     dev_write_def log_ev_def MiB16_def)
    apply (simp add: seg_alloc_def seg_alloc_again.simps Let_def seg_sum_zero_def geometry_defs
                     front_upd_def log_ev_def)
    apply (simp add: file_mod_init_def Let_def geometry_defs fold_hash_insert_superblock
                     fold_hash_insert_fronts)
    done
qed


lemma blank_invalid: "sb_invalid (sb_view (blank_disk 0))"
  by (simp add: sb_invalid_def sb_view_def blank_disk_def SIG_LOGSTOR_def)



section \<open>Superblock read\<close>

lemma chain_upto_Suc:
  "chain_upto d (Suc k) \<longleftrightarrow>
     chain_upto d k \<and> sig (sb_at d (Suc k)) = SIG_LOGSTOR
     \<and> sb_gen (sb_at d (Suc k)) = sb_gen (sb_at d k) + 1"
  by (auto simp: chain_upto_def le_Suc_eq less_Suc_eq)

lemma chain_upto_mono: "chain_upto d k \<Longrightarrow> j \<le> k \<Longrightarrow> chain_upto d j"
  by (auto simp: chain_upto_def)

lemma live_sb_unique: "live_sb d k \<Longrightarrow> live_sb d k' \<Longrightarrow> k = k'"
proof (rule ccontr)
  assume a: "live_sb d k" "live_sb d k'" "k \<noteq> k'"
  have aux: False if "live_sb d a" "live_sb d b" "a < b" for a b
  proof -
    from that have "Suc a \<le> b" "b < SECTORS_PER_SEG" by (auto simp: live_sb_def)
    then have "Suc a < SECTORS_PER_SEG" "chain_upto d (Suc a)"
      using that chain_upto_mono[of d b "Suc a"] by (auto simp: live_sb_def)
    with that show False by (auto simp: live_sb_def)
  qed
  from a aux[of k k'] aux[of k' k] show False by (cases "k < k'") auto
qed

lemma sb_probe_live:
  "0 < i \<Longrightarrow> i \<le> SECTORS_PER_SEG \<Longrightarrow> chain_upto d (i - 1) \<Longrightarrow> g = sb_gen (sb_at d (i - 1)) \<Longrightarrow>
   0 < sb_probe d i g \<and> live_sb d (sb_probe d i g - 1)"
proof (induction d i g rule: sb_probe.induct)
  case (1 d i g)
  show ?case
  proof (cases "i < SECTORS_PER_SEG")
    case False
    with "1.prems" have "i = SECTORS_PER_SEG" by simp
    with "1.prems" show ?thesis
      by (subst sb_probe.simps, subst sb_probe.simps) (simp add: live_sb_def)
  next
    case True
    let ?sb = "sb_view (d (of_nat i))"
    from "1.prems" obtain j where j: "i = Suc j" by (cases i) auto
    show ?thesis
    proof (cases "sig ?sb \<noteq> SIG_LOGSTOR \<or> sb_gen ?sb \<noteq> g + 1")
      case stop: True
      then have "sb_probe d i g = i"
        using True by (subst sb_probe.simps) (auto simp: Let_def)
      moreover have "\<not> chain_upto d (Suc j)"
        using stop "1.prems" j by (auto simp: chain_upto_Suc sb_at_def)
      ultimately show ?thesis
        using "1.prems" True j by (simp add: live_sb_def)
    next
      case go: False
      then have eq: "sb_probe d i g = sb_probe d (Suc i) (sb_gen ?sb)"
        using True by (subst sb_probe.simps) (auto simp: Let_def)
      have "chain_upto d (Suc j)"
        using go "1.prems" j by (auto simp: chain_upto_Suc sb_at_def)
      then have "0 < sb_probe d (Suc i) (sb_gen ?sb)
                 \<and> live_sb d (sb_probe d (Suc i) (sb_gen ?sb) - 1)"
        using True go j by (intro "1.IH"[OF True refl]) (auto simp: sb_at_def)
      with eq show ?thesis by simp
    qed
  qed
qed

lemma chain_upto_0: "chain_upto d 0 \<longleftrightarrow> sig (sb_view (d 0)) = SIG_LOGSTOR"
  by (simp add: chain_upto_def sb_at_def)

lemma probe_from_sector0:
  assumes "sig (sb_view (d 0)) = SIG_LOGSTOR"
  shows "0 < sb_probe d 1 (sb_gen (sb_view (d 0)))
         \<and> live_sb d (sb_probe d 1 (sb_gen (sb_view (d 0))) - 1)"
proof -
  have "0 < sb_probe d 1 (sb_gen (sb_at d (1 - 1)))
        \<and> live_sb d (sb_probe d 1 (sb_gen (sb_at d (1 - 1))) - 1)"
    using assms by (intro sb_probe_live) (simp_all add: chain_upto_0 SECTORS_PER_SEG_def SEG_SIZE_def SECTOR_SIZE_def)
  then show ?thesis by (simp add: sb_at_def)
qed


lemma sb4_view:
  "sb_view (sb_image (sb4 g p) ages) = (sb4 g p)" if "g \<in> {7, 8}" "p \<in> {1, 3, 4}"
  using that
  by (auto simp add: sb_view_def sb_image_def sb4_def SIG_LOGSTOR_def)

lemma blank_sig: "sig (sb_view (\<lambda>i. 0)) \<noteq> SIG_LOGSTOR"
  by (simp add: sb_view_def SIG_LOGSTOR_def)

lemma sig_sb4: "sig (sb4 g p) = SIG_LOGSTOR" "sb_gen (sb4 g p) = g"
  by (simp_all add: sb4_def)

lemma sps: "Suc (Suc 0) < SECTORS_PER_SEG" "Suc 0 < SECTORS_PER_SEG"
  by (simp_all add: SECTORS_PER_SEG_def SEG_SIZE_def SECTOR_SIZE_def)

lemma disk_chain_at:
  "sb_at disk_chain 0 = sb4 7 1" "sb_at disk_chain (Suc 0) = sb4 8 3"
  "sig (sb_at disk_chain (Suc (Suc 0))) \<noteq> SIG_LOGSTOR"
  by (simp_all add: sb_at_def disk_chain_def sb4_view blank_sig)

lemma disk_bad0_at:
  "sb_at disk_bad0 0 = sb4 7 4" "sb_at disk_bad0 (Suc 0) = sb4 8 3"
  "sig (sb_at disk_bad0 (Suc (Suc 0))) \<noteq> SIG_LOGSTOR"
  by (simp_all add: sb_at_def disk_bad0_def sb4_view blank_sig)

lemma chain_upto_0': "chain_upto d 0 \<longleftrightarrow> sig (sb_at d 0) = SIG_LOGSTOR"
  by (simp add: chain_upto_def)

lemma disk_chain_live: "live_sb disk_chain (Suc 0)"
  unfolding live_sb_def chain_upto_Suc chain_upto_0'
  using sps disk_chain_at by (simp add: sig_sb4)

lemma disk_bad0_live: "live_sb disk_bad0 (Suc 0)"
  unfolding live_sb_def chain_upto_Suc chain_upto_0'
  using sps disk_bad0_at by (simp add: sig_sb4)



section \<open>Indices into a forward-map block\<close>

lemma and_mask_bound: "unat ((x :: u32) AND 0x3ff) < 1024"
proof -
  have "x AND 0x3ff \<le> 0x3ff" by (rule word_and_le1)
  then have "unat (x AND 0x3ff) \<le> unat (0x3ff :: u32)" by (simp add: word_le_nat_alt)
  then show ?thesis by simp
qed

lemma file_access_off_bound: "unat (file_access_off offset) < 4096"
proof -
  have "offset AND 0xfff \<le> 0xfff" by (rule word_and_le1)
  then have "unat (offset AND 0xfff) \<le> unat (0xfff :: u32)" by (simp add: word_le_nat_alt)
  then show ?thesis by (simp add: file_access_off_def)
qed

lemma ma_index_get_bound: "ma_index_get m d = ok i \<Longrightarrow> unat i < 1024"
  by (auto simp: ma_index_get_def and_mask_bound split: if_splits)

text \<open>
  C5 (amended). For every block address, every access to a forward-map metadata block
  stays inside one block of \<open>SECTOR_SIZE/4 = 1024\<close> four-byte entries, with
  \<open>SECTOR_SIZE = 4096\<close> as the layout assertions of the source force it: the byte offset
  into the fbuf data that \<^verbatim>\<open>file_access\<close> computes is below 4096 (mask \<^verbatim>\<open>0xfff\<close>), and each
  per-level index that \<^verbatim>\<open>ma_index_get\<close> produces is below 1024 (mask \<^verbatim>\<open>0x3ff\<close>).
\<close>

theorem forward_map_block_bounds:
  "unat (file_access_off (push_bit 2 ba)) < SECTOR_SIZE
   \<and> unat (file_access_off (push_bit 2 ba)) div 4 < SECTOR_SIZE div 4
   \<and> (d < META_LEAF_DEPTH \<longrightarrow>
        (\<exists>i. ma_index_get (file_access_ma fd (push_bit 2 ba)) d = ok i \<and> unat i < SECTOR_SIZE div 4))"
proof -
  have "unat (file_access_off (push_bit 2 ba)) < 4096" by (rule file_access_off_bound)
  moreover have "d < 2 \<Longrightarrow> \<exists>i. ma_index_get m d = ok i \<and> unat i < 1024" for m
    by (cases "d = 0") (auto simp: ma_index_get_def and_mask_bound)
  ultimately show ?thesis
    by (simp add: SECTOR_SIZE_def META_LEAF_DEPTH_def)
qed

theorem forward_map_block_bounds_witness:
  "unat (file_access_off (push_bit 2 128)) < SECTOR_SIZE
   \<and> (1::nat) < META_LEAF_DEPTH
   \<and> (\<exists>i. ma_index_get (file_access_ma FD_ACTIVE (push_bit 2 131072)) 1 = ok i \<and> unat i < SECTOR_SIZE div 4)"
  using forward_map_block_bounds[of 128 1 FD_ACTIVE] forward_map_block_bounds[of 131072 1 FD_ACTIVE]
  by (simp add: META_LEAF_DEPTH_def)

text \<open>
  C5 as stated fails: for block address 128 (below \<^verbatim>\<open>max_block_cnt = 2751\<close> of the 16 MiB
  device) the byte offset is 512, not below 512; for block address 131072 the index at
  depth 1 is 128, not below 128.
\<close>

theorem forward_map_block_bounds_counterexample:
  "unat (file_access_off (push_bit 2 128)) = 512
   \<and> ma_index_get (file_access_ma FD_ACTIVE (push_bit 2 131072)) 1 = ok 128"
  by (simp add: file_access_off_def file_access_ma_def ma_index_get_def ma_set_fd_def
        ma_set_depth_def META_BASE_def META_LEAF_DEPTH_def FD_ACTIVE_def)

section \<open>Read path\<close>

lemma op_dispatch [simp]: "op_pos (dispatch s p c) = p" "op_len (dispatch s p c) = c"
  by (simp_all add: dispatch_def)

lemma runs_open_runs:
  "runs sas start pre count pos =
     (case runs_open sas start pre count pos of (ops, s, c, p) \<Rightarrow> ops @ [dispatch s p c])"
  by (induction sas arbitrary: start pre count pos) (auto split: prod.splits)

lemma read_loop_open:
  "read_loop n sc b start pre count pos ops =
     bnd (lookups n sc b) (\<lambda>(sas, sc').
       case runs_open sas start pre count pos of (ops', s, c, p) \<Rightarrow> ok (ops @ ops', s, c, p, sc'))"
proof (induction n arbitrary: sc b start pre count pos ops)
  case 0
  then show ?case by simp
next
  case (Suc n)
  show ?case
    by (auto simp: Suc.IH bnd_assoc split_beta intro!: bnd_cong)
qed

lemma logstor_read_multi_coalesce:
  "logstor_read_multi sc ba sz =
     bnd (lookups (Suc (sz - 1)) sc ba) (\<lambda>(sas, sc'). ok (coalesce sas, sc'))"
  by (auto simp: logstor_read_multi_def read_loop_open bnd_assoc split_beta coalesce_def
        runs_open_runs intro!: bnd_cong)

lemma runs_max:
  assumes "drop (pos + count) F = sas" "pos + count \<le> length F" "0 < count"
    "start = F ! pos" "pre = F ! (pos + count - 1)"
    "\<forall>j. pos \<le> j \<and> Suc j < pos + count \<longrightarrow> F ! Suc j = F ! j + 1"
    "pos = 0 \<or> F ! pos \<noteq> F ! (pos - 1) + 1"
  shows "tiles (runs sas start pre count pos) pos (length F)
         \<and> (\<forall>x \<in> set (runs sas start pre count pos). max_run F x)"
  using assms
proof (induction sas arbitrary: start pre count pos)
  case Nil
  then have "pos + count = length F" by simp
  with Nil show ?case by (simp add: max_run_def maximal_run_def)
next
  case (Cons sa sas)
  from Cons.prems(1) have lt: "pos + count < length F"
    by (metis drop_all list.distinct(1) not_le)
  from Cons.prems(1) have sa: "F ! (pos + count) = sa"
    by (metis lt hd_drop_conv_nth list.sel(1))
  from Cons.prems(1) have dr: "drop (pos + count + 1) F = sas"
    by (metis (no_types, lifting) Suc_eq_plus1 drop_Suc drop_drop list.sel(3) tl_drop add.commute)
  show ?case
  proof (cases "sa = pre + 1")
    case True
    have c: "\<forall>j. pos \<le> j \<and> Suc j < pos + (count + 1) \<longrightarrow> F ! Suc j = F ! j + 1"
    proof (intro allI impI)
      fix j assume j: "pos \<le> j \<and> Suc j < pos + (count + 1)"
      show "F ! Suc j = F ! j + 1"
      proof (cases "Suc j < pos + count")
        case True
        with j Cons.prems show ?thesis by simp
      next
        case False
        with j have "Suc j = pos + count" "j = pos + count - 1" by linarith+
        with sa \<open>sa = pre + 1\<close> Cons.prems(5) show ?thesis by simp
      qed
    qed
    have "tiles (runs sas start sa (count + 1) pos) pos (length F)
         \<and> (\<forall>x \<in> set (runs sas start sa (count + 1) pos). max_run F x)"
      using Cons.prems lt sa dr c
      by (intro Cons.IH) (simp_all add: add.assoc)
    with True show ?thesis by simp
  next
    case False
    have "tiles (runs sas sa sa 1 (pos + count)) (pos + count) (length F)
         \<and> (\<forall>x \<in> set (runs sas sa sa 1 (pos + count)). max_run F x)"
      using Cons.prems lt sa dr False
      by (intro Cons.IH) (simp_all add: add.assoc)
    moreover have "max_run F (dispatch start pos count)"
      using Cons.prems lt sa False by (simp add: max_run_def maximal_run_def)
    ultimately show ?thesis
      using False Cons.prems by simp
  qed
qed

lemma coalesce_max:
  assumes "sas \<noteq> []"
  shows "tiles (coalesce sas) 0 (length sas) \<and> (\<forall>x \<in> set (coalesce sas). max_run sas x)"
proof -
  from assms obtain sa rest where s: "sas = sa # rest" by (cases sas) auto
  have "tiles (runs rest sa sa 1 0) 0 (length sas)
        \<and> (\<forall>x \<in> set (runs rest sa sa 1 0). max_run sas x)"
    by (rule runs_max) (simp_all add: s)
  then show ?thesis by (simp add: coalesce_def s)
qed

lemma tiles_covers:
  "tiles xs p n \<Longrightarrow> p \<le> i \<Longrightarrow> i < n \<Longrightarrow> \<exists>x \<in> set xs. covers x i"
proof (induction xs arbitrary: p)
  case Nil
  then show ?case by simp
next
  case (Cons x xs)
  show ?case
  proof (cases "i < p + op_len x")
    case True
    with Cons.prems show ?thesis by (auto simp: covers_def)
  next
    case False
    with Cons.prems Cons.IH[of "p + op_len x"] show ?thesis by auto
  qed
qed

lemma same_run_iff:
  assumes "sas \<noteq> []" "Suc i < length sas"
  shows "(\<exists>x \<in> set (coalesce sas). covers x i \<and> covers x (Suc i)) \<longleftrightarrow> sas ! Suc i = sas ! i + 1"
proof
  assume "\<exists>x \<in> set (coalesce sas). covers x i \<and> covers x (Suc i)"
  then obtain x where x: "x \<in> set (coalesce sas)" "covers x i" "covers x (Suc i)" by blast
  with coalesce_max[OF assms(1)] have "max_run sas x" by blast
  with x show "sas ! Suc i = sas ! i + 1"
    by (auto simp: max_run_def maximal_run_def covers_def)
next
  assume c: "sas ! Suc i = sas ! i + 1"
  from coalesce_max[OF assms(1)] tiles_covers[of "coalesce sas" 0 "length sas" i] assms
  obtain x where x: "x \<in> set (coalesce sas)" "covers x i" by auto
  with coalesce_max[OF assms(1)] have m: "max_run sas x" by blast
  have "covers x (Suc i)"
  proof (rule ccontr)
    assume "\<not> covers x (Suc i)"
    with x have e: "op_pos x + op_len x = Suc i" by (auto simp: covers_def)
    with m assms c show False by (auto simp: max_run_def maximal_run_def)
  qed
  with x show "\<exists>x \<in> set (coalesce sas). covers x i \<and> covers x (Suc i)" by blast
qed

lemmas eval_defs =
  logstor_open_via_def superblock_read_via_def superblock_init_via_def xfer_read_def
  xfer_write_def seg_alloc_def file_mod_init_def
  fbuf_hash_insert_def fbuf_zero_def softc_zero_def seg_sum_zero_def blank_disk_def no_fault_def
  sb_invalid_def sb_view_def dev_write_def log_ev_def front_upd_def front_sum_def
  geometry_defs SIG_LOGSTOR_def VER_MAJOR_def VER_MINOR_def SECTOR_NULL_def SECTOR_DELETE_def
  META_BASE_def META_LEAF_DEPTH_def META_INVALID_def FILE_BUCKET_COUNT_def FD_ACTIVE_def
  CLEAN_WINDOW_def EINVAL_def Let_def res_map_def
  file_write_4byte_def file_read_4byte_def file_access_def file_access_ma_def file_access_off_def
  fbuf_get_def fbuf_get_loop.simps fbuf_search_def fbuf_read_and_hash_def fbuf_alloc_def
  alloc_scan.simps fbuf_cir_queue_remove_def fbuf_cir_queue_insert_def indir_insert_head_def
  indir_remove_def cq_next_def cq_prev_def cq_set_next_def cq_set_prev_def deref_def fb_upd_def
  ma_set_depth_def ma_set_fd_def ma_depth_def ma_fd_def ma_index_get_def ma_index_set_def
  IS_META_ADDR_def fbuf_flush_def fbuf_write_def seg_alloc_again.simps

lemmas read_defs = read_ops_def logstor_read_def logstor_read_multi_def logstor_read_one_def
  read_loop.simps dispatch_def opened_def dev20_def

lemma sega2sa_data_start: "sega2sa (word_of_int SEG_DATA_START) = 1024"
  by (simp add: sega2sa_def SEG_DATA_START_def SA2SEGA_SHIFT_def)

lemma fwd_value_consec:
  assumes "fwd_value sc a" "fwd_value sc b" "b = a + 1"
  shows "\<not> marker a \<and> \<not> marker b"
proof -
  define X :: u32 where "X = word_of_int (seg_cnt (superblock sc) * int SECTORS_PER_SEG)"
  from assms(1) have "a = 0 \<or> a = 2 \<or> (1024 \<le> a \<and> a < X)"
    by (auto simp: fwd_value_def marker_def sega2sa_data_start X_def SECTOR_NULL_def SECTOR_DELETE_def)
  then have ua: "unat a = 0 \<or> unat a = 2 \<or> (1024 \<le> unat a \<and> unat a < unat X)"
    by (auto simp: word_le_nat_alt word_less_nat_alt)
  from assms(2) have "b = 0 \<or> b = 2 \<or> (1024 \<le> b \<and> b < X)"
    by (auto simp: fwd_value_def marker_def sega2sa_data_start X_def SECTOR_NULL_def SECTOR_DELETE_def)
  then have ub: "unat b = 0 \<or> unat b = 2 \<or> (1024 \<le> unat b \<and> unat b < unat X)"
    by (auto simp: word_le_nat_alt word_less_nat_alt)
  have "unat X < 2 ^ 32" using unsigned_less[of X] by simp
  with ua have "unat a + 1 < 2 ^ 32" by auto
  then have "unat b = unat a + 1"
    by (simp add: assms(3) unat_word_ariths)
  with ua ub have "1024 \<le> unat a" "1024 \<le> unat b" by auto
  then have "a \<noteq> 0" "a \<noteq> 2" "b \<noteq> 0" "b \<noteq> 2" by auto
  then show ?thesis
    by (simp add: marker_def SECTOR_NULL_def SECTOR_DELETE_def)
qed

lemma run_no_marker:
  assumes m: "maximal_run sas x" and h: "\<forall>sa \<in> set sas. fwd_value sc sa"
    and l: "1 < op_len x" and c: "covers x j"
  shows "\<not> marker (sas ! j)"
proof (cases "Suc j < op_pos x + op_len x")
  case True
  with m c have e: "sas ! Suc j = sas ! j + 1" and b: "Suc j < length sas"
    by (auto simp: maximal_run_def covers_def)
  from h b have "fwd_value sc (sas ! j)" "fwd_value sc (sas ! Suc j)"
    by (simp_all del: One_nat_def)
  from fwd_value_consec[OF this e] show ?thesis by simp
next
  case False
  with c l obtain k where k: "j = Suc k" "op_pos x \<le> k" "Suc k < op_pos x + op_len x"
    by (cases j) (auto simp: covers_def)
  with m have e: "sas ! Suc k = sas ! k + 1" and b: "Suc k < length sas"
    by (auto simp: maximal_run_def)
  from h b have "fwd_value sc (sas ! k)" "fwd_value sc (sas ! Suc k)"
    by simp_all
  from fwd_value_consec[OF this e] k show ?thesis by simp
qed

lemma run_dispatch:
  assumes mr: "max_run sas x" and h: "\<forall>sa \<in> set sas. fwd_value sc sa"
  shows "x = (if marker (run_first sas x) \<or> marker (run_last sas x)
              then ZeroFill (op_pos x) (op_len x)
              else BackRead (op_pos x) (run_first sas x) (op_len x))"
    and "(\<exists>j. covers x j \<and> marker (sas ! j)) \<longrightarrow> x = ZeroFill (op_pos x) (op_len x)"
proof -
  from mr have m: "maximal_run sas x" and d: "x = dispatch (sas ! op_pos x) (op_pos x) (op_len x)"
    and pos: "0 < op_len x"
    by (simp_all add: max_run_def maximal_run_def)
  have d': "x = (if marker (run_first sas x) then ZeroFill (op_pos x) (op_len x)
                 else BackRead (op_pos x) (run_first sas x) (op_len x))"
    using d by (auto simp: dispatch_def marker_def run_first_def)
  show "x = (if marker (run_first sas x) \<or> marker (run_last sas x)
              then ZeroFill (op_pos x) (op_len x)
              else BackRead (op_pos x) (run_first sas x) (op_len x))"
  proof (cases "1 < op_len x")
    case True
    have "covers x (op_pos x + op_len x - 1)" "covers x (op_pos x)"
      using True by (simp_all add: covers_def)
    with run_no_marker[OF m h True] have "\<not> marker (run_last sas x)" "\<not> marker (run_first sas x)"
      by (simp_all add: run_last_def run_first_def)
    with d' show ?thesis by simp
  next
    case False
    with pos have "op_len x = 1" by simp
    then have "run_last sas x = run_first sas x"
      by (simp add: run_last_def run_first_def)
    with d' show ?thesis by simp
  qed
  show "(\<exists>j. covers x j \<and> marker (sas ! j)) \<longrightarrow> x = ZeroFill (op_pos x) (op_len x)"
  proof
    assume "\<exists>j. covers x j \<and> marker (sas ! j)"
    then obtain j where j: "covers x j" "marker (sas ! j)" by blast
    with run_no_marker[OF m h _ j(1)] have "\<not> 1 < op_len x" by blast
    with pos j(1) have "j = op_pos x" by (simp add: covers_def)
    with j(2) d' show "x = ZeroFill (op_pos x) (op_len x)"
      by (simp add: run_first_def)
  qed
qed

lemma one_back_read_iff:
  assumes ne: "sas \<noteq> []" and h: "\<forall>sa \<in> set sas. fwd_value sc sa" and i: "Suc i < length sas"
  shows "(\<exists>x \<in> set (coalesce sas). is_back x \<and> covers x i \<and> covers x (Suc i))
         \<longleftrightarrow> sas ! Suc i = sas ! i + 1 \<and> \<not> marker (sas ! i) \<and> \<not> marker (sas ! Suc i)"
proof
  assume "\<exists>x \<in> set (coalesce sas). is_back x \<and> covers x i \<and> covers x (Suc i)"
  then have e: "sas ! Suc i = sas ! i + 1"
    using same_run_iff[OF ne i] by blast
  from h i have "fwd_value sc (sas ! i)" "fwd_value sc (sas ! Suc i)" by simp_all
  from fwd_value_consec[OF this e] e
  show "sas ! Suc i = sas ! i + 1 \<and> \<not> marker (sas ! i) \<and> \<not> marker (sas ! Suc i)" by simp
next
  assume a: "sas ! Suc i = sas ! i + 1 \<and> \<not> marker (sas ! i) \<and> \<not> marker (sas ! Suc i)"
  with same_run_iff[OF ne i] obtain x where
    x: "x \<in> set (coalesce sas)" "covers x i" "covers x (Suc i)" by blast
  with coalesce_max[OF ne] have mr: "max_run sas x" by blast
  from x have "1 < op_len x" by (auto simp: covers_def)
  with mr have "\<not> marker (run_first sas x)"
    using run_no_marker[of sas x sc "op_pos x"] h
    by (simp add: max_run_def covers_def run_first_def)
  with mr have "x = BackRead (op_pos x) (sas ! op_pos x) (op_len x)"
    by (simp add: max_run_def dispatch_def marker_def run_first_def)
  then have "is_back x"
    by (metis is_back.simps(2))
  with x show "\<exists>x \<in> set (coalesce sas). is_back x \<and> covers x i \<and> covers x (Suc i)" by blast
qed

text \<open>
  C6. In \<^verbatim>\<open>_logstor_read\<close>, for every multi-block request, what is dispatched is the
  coalescing of the looked-up sector addresses. Where these are entries as the forward
  map holds them (a marker or the address of a data sector, \<open>fwd_value\<close>), the operations
  tile the request, each is a maximal run of strictly consecutive addresses, and two
  consecutive block addresses are dispatched as one backing read exactly when their
  looked-up sector addresses are strictly consecutive (\<open>sa[i+1] = sa[i] + 1\<close>) and
  neither is \<^verbatim>\<open>SECTOR_NULL\<close> or \<^verbatim>\<open>SECTOR_DELETE\<close>. A run is one backing read from its first
  address exactly when neither of its endpoints is \<^verbatim>\<open>SECTOR_NULL\<close> or \<^verbatim>\<open>SECTOR_DELETE\<close>,
  and every run with a sector address that is \<^verbatim>\<open>SECTOR_NULL\<close> or \<^verbatim>\<open>SECTOR_DELETE\<close> is
  answered by zero-filling the client buffer instead.
\<close>

theorem logstor_read_coalesces:
  "logstor_read_multi sc ba sz =
     bnd (lookups (Suc (sz - 1)) sc ba) (\<lambda>(sas, sc'). ok (coalesce sas, sc'))
   \<and> (sas \<noteq> [] \<and> (\<forall>sa \<in> set sas. fwd_value sc sa) \<longrightarrow>
        tiles (coalesce sas) 0 (length sas)
        \<and> (\<forall>x \<in> set (coalesce sas).
              maximal_run sas x
              \<and> x = (if marker (run_first sas x) \<or> marker (run_last sas x)
                     then ZeroFill (op_pos x) (op_len x)
                     else BackRead (op_pos x) (run_first sas x) (op_len x))
              \<and> ((\<exists>j. covers x j \<and> marker (sas ! j)) \<longrightarrow> x = ZeroFill (op_pos x) (op_len x)))
        \<and> (\<forall>i. Suc i < length sas \<longrightarrow>
              ((\<exists>x \<in> set (coalesce sas). is_back x \<and> covers x i \<and> covers x (Suc i))
                 \<longleftrightarrow> sas ! Suc i = sas ! i + 1
                       \<and> \<not> marker (sas ! i) \<and> \<not> marker (sas ! Suc i))))"
proof (intro conjI impI)
  show "logstor_read_multi sc ba sz =
     bnd (lookups (Suc (sz - 1)) sc ba) (\<lambda>(sas, sc'). ok (coalesce sas, sc'))"
    by (rule logstor_read_multi_coalesce)
next
  assume a: "sas \<noteq> [] \<and> (\<forall>sa \<in> set sas. fwd_value sc sa)"
  then have ne: "sas \<noteq> []" and h: "\<forall>sa \<in> set sas. fwd_value sc sa" by simp_all
  show "tiles (coalesce sas) 0 (length sas)"
    using coalesce_max[OF ne] by blast
  show "\<forall>x \<in> set (coalesce sas).
              maximal_run sas x
              \<and> x = (if marker (run_first sas x) \<or> marker (run_last sas x)
                     then ZeroFill (op_pos x) (op_len x)
                     else BackRead (op_pos x) (run_first sas x) (op_len x))
              \<and> ((\<exists>j. covers x j \<and> marker (sas ! j)) \<longrightarrow> x = ZeroFill (op_pos x) (op_len x))"
  proof
    fix x assume "x \<in> set (coalesce sas)"
    with coalesce_max[OF ne] have mr: "max_run sas x" by blast
    from run_dispatch[OF mr h] mr
    show "maximal_run sas x
              \<and> x = (if marker (run_first sas x) \<or> marker (run_last sas x)
                     then ZeroFill (op_pos x) (op_len x)
                     else BackRead (op_pos x) (run_first sas x) (op_len x))
              \<and> ((\<exists>j. covers x j \<and> marker (sas ! j)) \<longrightarrow> x = ZeroFill (op_pos x) (op_len x))"
      by (simp add: max_run_def)
  qed
  show "\<forall>i. Suc i < length sas \<longrightarrow>
              ((\<exists>x \<in> set (coalesce sas). is_back x \<and> covers x i \<and> covers x (Suc i))
                 \<longleftrightarrow> sas ! Suc i = sas ! i + 1
                       \<and> \<not> marker (sas ! i) \<and> \<not> marker (sas ! Suc i))"
    using one_back_read_iff[OF ne h] by blast
qed

section \<open>Live count of the cleaner\<close>

lemma live_loop_flags:
  "live_loop n sc ss i lc =
     bnd (live_flags n sc ss i) (\<lambda>(bs, sc'). ok (lc + of_nat (count_true bs), sc'))"
proof (induction n arbitrary: sc i lc)
  case 0
  then show ?case by (simp add: count_true_def)
next
  case (Suc n)
  show ?case
    by (auto simp: Suc.IH slot_live_def bnd_assoc split_beta count_true_def intro!: bnd_cong)
qed

lemma live_flags_length:
  "live_flags n sc ss i = ok (bs, sc') \<Longrightarrow> length bs = n"
proof (induction n arbitrary: sc i bs)
  case 0
  then show ?case by simp
next
  case (Suc n)
  then show ?case
    by (auto simp: bnd_eq_ok split: if_splits)
qed

text \<open>
  C7. For every segment summary, \<^verbatim>\<open>seg_live_count\<close> stores as \<^verbatim>\<open>live_count\<close> the number of
  slots \<open>i\<close> below \<^verbatim>\<open>ss_alloc_p\<close> that pass the liveness test \<open>slot_live\<close>, the tests
  being made in slot order, each in the state the lookups of the one before left:
  if \<^verbatim>\<open>ss_rm[i]\<close> is a metadata address, slot \<open>i\<close> is live exactly when
  \<^verbatim>\<open>fbuf_ma2sa(ss_rm[i])\<close> equals \<^verbatim>\<open>sega2sa(sega) + i\<close> and the cached fbuf for that address
  is neither modified nor accessed; otherwise exactly when
  \<^verbatim>\<open>file_read_4byte(FD_ACTIVE, ss_rm[i])\<close> equals \<^verbatim>\<open>sega2sa(sega) + i\<close>. There is one flag
  for each slot in use, and a lookup that fails makes \<^verbatim>\<open>seg_live_count\<close> fail the same way.
\<close>

theorem seg_live_count_counts:
  "seg_live_count sc ss =
     bnd (live_flags (unat (ss_alloc_p ss)) sc ss 0) (\<lambda>(fl, sc1).
       ok (ss\<lparr>live_count := of_nat (count_true fl)\<rparr>, sc1))
   \<and> (live_flags (unat (ss_alloc_p ss)) sc ss 0 = ok (bs, sc') \<longrightarrow>
        length bs = unat (ss_alloc_p ss))"
  by (auto simp: seg_live_count_def live_loop_flags bnd_assoc split_beta live_flags_length
        intro!: bnd_cong)

section \<open>Evaluation of the write path\<close>

lemma write_loop_done:
  "\<not> 0 < sec_remain \<Longrightarrow> write_loop cl f payload sc ba sec_remain pos = ok sc"
  by (subst write_loop.simps) simp

lemma write_loop_step:
  "0 < sec_remain \<Longrightarrow>
   write_loop cl f payload sc ba sec_remain pos =
     bnd (write_round cl f payload sc ba sec_remain pos) (\<lambda>(count, sc3).
       write_loop cl f payload sc3 (ba + word_of_int count) (sec_remain - count)
         (pos + nat count))"
  by (subst write_loop.simps) (simp add: bnd_def split: option.splits sum.splits)

lemma loop_numerals:
  "rm_record_loop (numeral k) = rm_record_loop (Suc (pred_numeral k))"
  "dev_write_data (numeral k) = dev_write_data (Suc (pred_numeral k))"
  "fwd_loop (numeral k) = fwd_loop (Suc (pred_numeral k))"
  "delete_loop (numeral k) = delete_loop (Suc (pred_numeral k))"
  "read_loop (numeral k) = read_loop (Suc (pred_numeral k))"
  "lookups (numeral k) = lookups (Suc (pred_numeral k))"
  "live_flags (numeral k) = live_flags (Suc (pred_numeral k))"
  "live_loop (numeral k) = live_loop (Suc (pred_numeral k))"
  by (simp_all only: numeral_eq_Suc)

lemmas write_defs = logstor_write_def logstor_write_one_def logstor_write_multi_def
  write_loop_done write_loop_step write_round_def rm_record_def rm_record_loop.simps fwd_loop.simps segment_full_def
  issue_data_write_def dev_write_data.simps clean_check_def write_blocks_def no_cleaner_def
  zero_payload_def opened_def dev20_def loop_numerals sega2sa_def

lemma the_ok_ok [simp]: "the_ok d (ok x) = x"
  by (simp add: the_ok_def ok_def)

lemma wr010_ok: "wr010 = ok st010"
proof -
  have "\<exists>s. wr010 = ok s"
    by (simp add: wr010_def write_defs eval_defs upt_rec)
  then obtain s where s: "wr010 = ok s" by blast
  show ?thesis unfolding st010_def s by simp
qed

lemma live_flags_numeral:
  "live_flags (numeral k) sc ss i =
     (if \<not> i < SECTORS_PER_SEG - 1 then fail Undefined
      else bnd (slot_live sc ss i) (\<lambda>(b, sc1).
           bnd (live_flags (pred_numeral k) sc1 ss (Suc i)) (\<lambda>(bs, sc2). ok (b # bs, sc2))))"
  by (simp add: numeral_eq_Suc)

lemma wr010_flags: "bnd wr010 hot_flags = ok [False, True, True]"
  apply (simp add: wr010_def write_defs eval_defs upt_rec cong: bnd_weak_cong)
  apply (simp add: hot_flags_def)
  apply (simp add: live_flags_numeral slot_live_def eval_defs sega2sa_def upt_rec cong: bnd_weak_cong)
  done

text \<open>
  After blocks 0 and 1 were written and block 0 was written again, slot 0 of the hot
  segment is stale and slots 1 and 2 are live: the live count is 2.
\<close>

theorem seg_live_count_counts_witness:
  "hot_flags st010 = ok [False, True, True]
   \<and> res_map live_count_of (seg_live_count st010 (seg_sum_hot st010)) = ok 2"
proof -
  define ss where "ss = seg_sum_hot st010"
  have f: "hot_flags st010 = ok [False, True, True]"
    using wr010_flags by (simp add: wr010_ok)
  then obtain sc' where
    lf: "live_flags (unat (ss_alloc_p ss)) st010 ss 0 = ok ([False, True, True], sc')"
    unfolding hot_flags_def res_map_def ss_def by (auto simp: bnd_eq_ok)
  have "seg_live_count st010 ss = ok (ss\<lparr>live_count := of_nat (count_true [False, True, True])\<rparr>, sc')"
    using seg_live_count_counts[of st010 ss "[False, True, True]" sc', THEN conjunct1]
    by (simp add: lf)
  then have "res_map live_count_of (seg_live_count st010 ss) = ok 2"
    by (simp add: res_map_def live_count_of_def count_true_def)
  with f show ?thesis by (simp add: ss_def)
qed

section \<open>A read after two writes\<close>

lemma wr01_ok: "wr01 = ok st01"
proof -
  have "\<exists>s. wr01 = ok s"
    by (simp add: wr01_def write_defs eval_defs upt_rec)
  then obtain s where s: "wr01 = ok s" by blast
  show ?thesis unfolding st01_def s by simp
qed

lemma wr01_seg_cnt: "res_map (\<lambda>s. seg_cnt (superblock s)) wr01 = ok 5"
  by (simp add: wr01_def write_defs eval_defs upt_rec)

lemma wr01_read: "bnd wr01 (read_ops 0 3) = ok [BackRead 0 2048 2, ZeroFill 2 1]"
  apply (simp add: wr01_def write_defs eval_defs upt_rec cong: bnd_weak_cong)
  apply (simp add: read_defs loop_numerals eval_defs upt_rec cong: bnd_weak_cong)
  done

text \<open>
  C6 on the state that the write of blocks 0 and 1 leaves: the forward map holds 2048
  and 2049 for them and \<^verbatim>\<open>SECTOR_NULL\<close> for block 2; a read of three blocks is one backing
  read of two sectors and one zero-fill.
\<close>

theorem logstor_read_coalesces_witness:
  "res_map fst (logstor_read st01 0 3) = ok [BackRead 0 2048 2, ZeroFill 2 1]
   \<and> [2048, 2049, 0 :: u32] \<noteq> []
   \<and> fwd_value st01 2048 \<and> fwd_value st01 2049 \<and> fwd_value st01 0
   \<and> tiles (coalesce [2048, 2049, 0]) 0 3
   \<and> (\<exists>x \<in> set (coalesce [2048, 2049, 0]). is_back x \<and> covers x 0 \<and> covers x (Suc 0))
   \<and> \<not> (\<exists>x \<in> set (coalesce [2048, 2049, 0]).
            is_back x \<and> covers x (Suc 0) \<and> covers x (Suc (Suc 0)))"
proof -
  have sc: "seg_cnt (superblock st01) = 5"
    using wr01_seg_cnt by (simp add: wr01_ok res_map_def)
  have h: "[2048, 2049, 0 :: u32] \<noteq> [] \<and> (\<forall>sa \<in> set [2048, 2049, 0]. fwd_value st01 sa)"
    by (simp add: fwd_value_def marker_def sega2sa_data_start sc SECTOR_NULL_def
          SECTORS_PER_SEG_def SEG_SIZE_def SECTOR_SIZE_def)
  have r: "res_map fst (logstor_read st01 0 3) = ok [BackRead 0 2048 2, ZeroFill 2 1]"
    using wr01_read by (simp add: wr01_ok read_ops_def)
  note T = logstor_read_coalesces[of st01 0 3 "[2048, 2049, 0]", THEN conjunct2, THEN mp, OF h]
  then have t: "tiles (coalesce [2048, 2049, 0]) 0 (length [2048, 2049, 0 :: u32])"
    and e: "\<forall>i. Suc i < length [2048, 2049, 0 :: u32] \<longrightarrow>
              ((\<exists>x \<in> set (coalesce [2048, 2049, 0]). is_back x \<and> covers x i \<and> covers x (Suc i))
                 \<longleftrightarrow> [2048, 2049, 0 :: u32] ! Suc i = [2048, 2049, 0] ! i + 1
                       \<and> \<not> marker ([2048, 2049, 0 :: u32] ! i)
                       \<and> \<not> marker ([2048, 2049, 0 :: u32] ! Suc i))"
    by blast+
  from e[rule_format, of 0] e[rule_format, of "Suc 0"] t h r show ?thesis
    by (simp add: numeral_3_eq_3 marker_def SECTOR_NULL_def SECTOR_DELETE_def)
qed

section \<open>Events of the cache\<close>

lemma bndE: "bnd m f = ok y \<Longrightarrow> (\<And>x. m = ok x \<Longrightarrow> f x = ok y \<Longrightarrow> P) \<Longrightarrow> P"
  by (auto simp: bnd_eq_ok)

lemma MY_ASSERT_ok: "MY_ASSERT c k = ok y \<longleftrightarrow> c \<and> k = ok y"
  by (cases c) simp_all

lemma flushes_refl [simp]: "flushes sc sc"
  by (simp add: flushes_def)

lemma flushes_eq: "io_log sc' = io_log sc \<Longrightarrow> flushes sc sc'"
  by (simp add: flushes_def)

lemma flushes_trans: "flushes a b \<Longrightarrow> flushes b c \<Longrightarrow> flushes a c"
  by (auto simp: flushes_def)

lemma flushes_cong: "io_log a = io_log a' \<Longrightarrow> io_log b = io_log b' \<Longrightarrow> flushes a b = flushes a' b'"
  by (simp add: flushes_def)

lemma io_log_fb_upd [simp]: "io_log (fb_upd p f sc) = io_log sc"
  by (simp add: fb_upd_def)

lemma io_log_front_upd [simp]: "io_log (front_upd f g sc) = io_log sc"
  by (simp add: front_upd_def split: front.splits)

lemma io_log_log_ev [simp]: "io_log (log_ev e sc) = io_log sc @ [e]"
  by (simp add: log_ev_def)

lemma io_log_dev_write [simp]: "io_log (snd (dev_write sc sa sec)) = io_log sc"
  by (simp add: dev_write_def)

lemma io_log_indir_remove [simp]: "io_log (indir_remove sc b) = io_log sc"
  by (simp add: indir_remove_def)

lemma io_log_hash_insert [simp]: "io_log (fbuf_hash_insert sc b k) = io_log sc"
  by (simp add: fbuf_hash_insert_def)

lemma cq_set_next_log: "cq_set_next sc p v = ok sc' \<Longrightarrow> io_log sc' = io_log sc"
  by (auto simp: cq_set_next_def deref_def bnd_eq_ok split: if_splits qentry.splits)

lemma cq_set_prev_log: "cq_set_prev sc p v = ok sc' \<Longrightarrow> io_log sc' = io_log sc"
  by (auto simp: cq_set_prev_def deref_def bnd_eq_ok split: if_splits qentry.splits)

lemma indir_insert_head_log: "indir_insert_head sc i b = ok sc' \<Longrightarrow> io_log sc' = io_log sc"
  by (auto simp: indir_insert_head_def split: if_splits)

lemma fbuf_cir_queue_insert_log: "fbuf_cir_queue_insert sc b = ok sc' \<Longrightarrow> io_log sc' = io_log sc"
  by (auto simp: fbuf_cir_queue_insert_def bnd_eq_ok split: option.splits
        dest!: cq_set_next_log cq_set_prev_log)

lemma fbuf_cir_queue_remove_log: "fbuf_cir_queue_remove sc b = ok sc' \<Longrightarrow> io_log sc' = io_log sc"
  by (auto simp: fbuf_cir_queue_remove_def bnd_eq_ok MY_ASSERT_ok Let_def split: option.splits if_splits
        dest!: cq_set_next_log cq_set_prev_log)

lemma fbuf_search_log: "fbuf_search sc m = ok (r, sc') \<Longrightarrow> io_log sc' = io_log sc"
  by (auto simp: fbuf_search_def bnd_eq_ok split: option.splits)

lemma alloc_scan_log: "alloc_scan sc b h = ok (r, sc') \<Longrightarrow> io_log sc' = io_log sc"
proof (induction sc b h rule: alloc_scan.induct)
  case (1 sc buf h)
  from "1.prems" show ?case
    by (subst (asm) alloc_scan.simps)
       (auto split: if_splits qentry.splits intro: "1.IH"[simplified])
qed

lemma seg_alloc_again_log:
  assumes "seg_alloc_again sc c h = ok (x, sc')"
  shows "io_log sc' = io_log sc"
proof -
  let ?P = "\<lambda>(s :: softc) (c :: u32) (h :: u32) (r :: error + u32 \<times> softc).
              case r of Inl e \<Rightarrow> True | Inr (x, s') \<Rightarrow> io_log s' = io_log s"
  have "?P sc c h (Inr (x, sc'))"
  proof (rule seg_alloc_again.raw_induct[where P = ?P, OF _ assms[unfolded ok_def]])
    fix f s c h r
    assume IH: "\<And>s' c' h' r'. f s' c' h' = Some r' \<Longrightarrow> ?P s' c' h' r'"
    assume step: "(let p = seg_alloc_p (superblock s); x = word_of_int p
      in if 2 ^ 31 \<le> p + 1 then fail Undefined
         else let p' = if p + 1 = seg_cnt (superblock s) then SEG_DATA_START else p + 1;
                  sc' = s\<lparr>superblock := superblock s\<lparr>seg_alloc_p := p'\<rparr>\<rparr>
              in if \<not> p' < seg_cnt (superblock s) then fail AssertFailed
                 else if \<not> p' + 1 \<noteq> seg_reclaim_p (superblock s) then fail AssertFailed
                 else if \<not> x \<noteq> h then fail AssertFailed
                 else if x = c then f sc' c h
                 else if \<not> unat x < length (seg_age s) then fail Undefined
                 else if seg_age s ! unat x \<noteq> 0 then f sc' c h else ok (x, sc')) = Some r"
    show "?P s c h r"
      using step
      by (auto simp: Let_def ok_def fail_def split: if_splits sum.splits dest!: IH)
  qed
  then show ?thesis by simp
qed

lemma seg_alloc_log: "seg_alloc sc f = ok sc' \<Longrightarrow> \<exists>g. io_log sc' = io_log sc @ [SegAlloc f g]"
  by (auto simp: seg_alloc_def bnd_eq_ok Let_def MY_ASSERT_ok split: if_splits
        dest!: seg_alloc_again_log)

lemma seg_sum_write_log:
  "io_log (seg_sum_write sc f) =
     io_log sc @ [SumWrite f (sega2sa (sega (front_sum f sc)) + of_nat SEG_SUM_OFF)]"
  by (simp add: seg_sum_write_def Let_def dev_write_def split_beta)

lemma flushes_app: "io_log sc' = io_log sc @ fl \<Longrightarrow> list_all is_flush fl \<Longrightarrow> flushes sc sc'"
  by (auto simp: flushes_def)

lemma fbuf_write_log: "fbuf_write sc b f = ok (sa, sc') \<Longrightarrow> flushes sc sc'"
  by (auto simp: fbuf_write_def bnd_eq_ok Let_def MY_ASSERT_ok dev_write_def seg_sum_write_log
        flushes_def split: if_splits
        dest!: seg_alloc_log)

lemma fbuf_flush_log: "fbuf_flush sc b f = ok sc' \<Longrightarrow> flushes sc sc'"
  by (auto simp: fbuf_flush_def bnd_eq_ok Let_def MY_ASSERT_ok split: if_splits option.splits
        dest!: fbuf_write_log simp: flushes_def)

lemma fbuf_alloc_log: "fbuf_alloc sc = ok (b, sc') \<Longrightarrow> flushes sc sc'"
  unfolding fbuf_alloc_def
  by (auto simp: bnd_eq_ok Let_def MY_ASSERT_ok flushes_def
        split: if_splits option.splits
        dest!: fbuf_flush_log[unfolded flushes_def] alloc_scan_log fbuf_cir_queue_insert_log)

lemma fbuf_read_and_hash_log: "fbuf_read_and_hash sc sa m = ok (b, sc') \<Longrightarrow> flushes sc sc'"
  by (auto simp: fbuf_read_and_hash_def bnd_eq_ok Let_def flushes_def
        dest!: fbuf_alloc_log[unfolded flushes_def])

lemma MY_ASSERT_okE: "MY_ASSERT c k = ok y \<Longrightarrow> (c \<Longrightarrow> k = ok y \<Longrightarrow> P) \<Longrightarrow> P"
  by (cases c) simp_all

lemma fbuf_get_loop_log:
  "fbuf_get_loop k sc m sa pbuf tma0 = ok (b, sc') \<Longrightarrow> flushes sc sc'"
proof (induction k arbitrary: sc sa pbuf tma0)
  case 0
  then show ?case
    by (subst (asm) fbuf_get_loop.simps)
       (auto simp: Let_def flushes_def deref_def
          elim!: bndE MY_ASSERT_okE
          split: if_split_asm option.split_asm
          dest!: fbuf_read_and_hash_log[unfolded flushes_def] fbuf_search_log)
next
  case (Suc k)
  from Suc.prems show ?case
    by (subst (asm) fbuf_get_loop.simps)
       (auto simp: Let_def flushes_def deref_def
          elim!: bndE MY_ASSERT_okE
          split: if_split_asm option.split_asm
          dest!: fbuf_read_and_hash_log[unfolded flushes_def] fbuf_search_log
                 Suc.IH[unfolded flushes_def] fbuf_cir_queue_remove_log indir_insert_head_log)
qed

lemma fbuf_get_log: "fbuf_get sc m = ok (b, sc') \<Longrightarrow> flushes sc sc'"
  by (auto simp: fbuf_get_def bnd_eq_ok MY_ASSERT_ok flushes_def split: option.splits
        dest!: fbuf_search_log fbuf_get_loop_log[unfolded flushes_def])

lemma file_access_log: "file_access sc fd off w = ok (b, o', sc') \<Longrightarrow> flushes sc sc'"
  by (auto simp: file_access_def bnd_eq_ok Let_def flushes_def split: if_splits
        dest!: fbuf_get_log[unfolded flushes_def])

lemma file_read_4byte_log: "file_read_4byte sc fd ba = ok (sa, sc') \<Longrightarrow> flushes sc sc'"
  by (auto simp: file_read_4byte_def bnd_eq_ok MY_ASSERT_ok dest!: file_access_log)

lemma file_write_4byte_log:
  "file_write_4byte sc fd ba sa = ok sc' \<Longrightarrow>
   \<exists>fl. io_log sc' = io_log sc @ fl @ [FwdWrite fd ba sa] \<and> list_all is_flush fl"
  by (auto simp: file_write_4byte_def bnd_eq_ok MY_ASSERT_ok flushes_def dest!: file_access_log)

section \<open>Events of the write path\<close>

lemma clean_check_log: "clean_check cl sc = ok sc' \<Longrightarrow> io_log sc' = io_log sc @ [CleanCheck]"
  by (auto simp: clean_check_def Let_def elim!: bndE MY_ASSERT_okE split: if_split_asm)

lemma dev_write_data_props:
  "dev_write_data n sc sa payload pos = (r, sc') \<Longrightarrow>
   io_log sc' = io_log sc \<and> wr_fault sc' = wr_fault sc \<and> r = data_ok sc sa n
   \<and> seg_sum_hot sc' = seg_sum_hot sc \<and> seg_sum_cold sc' = seg_sum_cold sc
   \<and> superblock sc' = superblock sc"
proof (induction n arbitrary: sc sa pos r sc')
  case 0
  then show ?case by simp
next
  case (Suc n)
  obtain e sc1 where d: "dev_write sc sa (payload pos) = (e, sc1)" by (cases "dev_write sc sa (payload pos)")
  obtain r2 sc2 where d2: "dev_write_data n sc1 (sa + 1) payload (Suc pos) = (r2, sc2)"
    by (cases "dev_write_data n sc1 (sa + 1) payload (Suc pos)")
  from d have p1: "io_log sc1 = io_log sc" "wr_fault sc1 = wr_fault sc" "e = 0 \<longleftrightarrow> \<not> wr_fault sc sa"
     "seg_sum_hot sc1 = seg_sum_hot sc" "seg_sum_cold sc1 = seg_sum_cold sc"
     "superblock sc1 = superblock sc"
    by (auto simp: dev_write_def EIO_def split: if_split_asm)
  have w: "data_ok sc1 x k = data_ok sc x k" for x k
    by (induction k arbitrary: x) (simp_all add: p1)
  from Suc.IH[OF d2] Suc.prems d d2 p1 show ?case
    by (auto simp: w)
qed

lemma front_sum_simps [simp]:
  "front_sum f (sc\<lparr>io_log := l\<rparr>) = front_sum f sc"
  "front_sum f (sc\<lparr>other_write_count := c\<rparr>) = front_sum f sc"
  "front_sum f (sc\<lparr>data_write_count := c\<rparr>) = front_sum f sc"
  "front_sum f (log_ev e sc) = front_sum f sc"
  "front_sum f (front_upd f g sc) = g (front_sum f sc)"
  by (simp_all add: front_sum_def front_upd_def log_ev_def split: front.splits)

lemma front_sum_cong:
  "seg_sum_hot sc' = seg_sum_hot sc \<Longrightarrow> seg_sum_cold sc' = seg_sum_cold sc \<Longrightarrow>
   front_sum f sc' = front_sum f sc"
  by (simp add: front_sum_def split: front.splits)

lemma issue_data_write_props:
  "io_log (issue_data_write sc sa n payload pos) = io_log sc @ [DataWrite sa n (data_ok sc sa n)]"
  "front_sum f (issue_data_write sc sa n payload pos) = front_sum f sc"
  "superblock (issue_data_write sc sa n payload pos) = superblock sc"
proof -
  obtain r sc1 where d: "dev_write_data n sc sa payload pos = (r, sc1)"
    by (cases "dev_write_data n sc sa payload pos")
  note p = dev_write_data_props[OF d]
  from p have fs: "front_sum f sc1 = front_sum f sc" by (intro front_sum_cong) simp_all
  show "io_log (issue_data_write sc sa n payload pos) = io_log sc @ [DataWrite sa n (data_ok sc sa n)]"
    using p by (simp add: issue_data_write_def d Let_def)
  show "front_sum f (issue_data_write sc sa n payload pos) = front_sum f sc"
    using fs by (simp add: issue_data_write_def d Let_def)
  show "superblock (issue_data_write sc sa n payload pos) = superblock sc"
    using p by (simp add: issue_data_write_def d Let_def log_ev_def)
qed

lemma unat_Suc_u16: "unat (p :: u16) < 1023 \<Longrightarrow> unat (p + 1) = Suc (unat p)"
  by (simp add: unat_word_ariths)

lemma superblock_frame [simp]:
  "superblock (front_upd f g sc) = superblock sc"
  "superblock (log_ev e sc) = superblock sc"
  by (simp_all add: front_upd_def log_ev_def split: front.splits)

lemma rm_record_props:
  assumes "rm_record sc f b = ok sc'"
  shows "io_log sc' = io_log sc @ [RmRecord f (sega (front_sum f sc)) (unat (ss_alloc_p (front_sum f sc))) b]"
    and "sega (front_sum f sc') = sega (front_sum f sc)"
    and "unat (ss_alloc_p (front_sum f sc')) = Suc (unat (ss_alloc_p (front_sum f sc)))"
    and "superblock sc' = superblock sc"
proof -
  from assms have lt: "unat (ss_alloc_p (front_sum f sc)) < 1023"
    and sc': "sc' = log_ev (RmRecord f (sega (front_sum f sc)) (unat (ss_alloc_p (front_sum f sc))) b)
                    (front_upd f (\<lambda>ss. ss\<lparr>ss_rm := (ss_rm ss)(unat (ss_alloc_p (front_sum f sc)) := b),
                                           ss_alloc_p := ss_alloc_p (front_sum f sc) + 1\<rparr>) sc)"
    by (simp_all add: rm_record_def Let_def geometry_defs split: if_split_asm)
  show "io_log sc' = io_log sc @ [RmRecord f (sega (front_sum f sc)) (unat (ss_alloc_p (front_sum f sc))) b]"
    by (simp add: sc')
  show "sega (front_sum f sc') = sega (front_sum f sc)"
    by (simp add: sc')
  show "unat (ss_alloc_p (front_sum f sc')) = Suc (unat (ss_alloc_p (front_sum f sc)))"
    by (simp add: sc' unat_Suc_u16[OF lt])
  show "superblock sc' = superblock sc"
    by (simp add: sc')
qed

lemma rm_record_loop_props:
  "rm_record_loop n sc f b = ok sc' \<Longrightarrow>
   io_log sc' = io_log sc @ rm_events f (sega (front_sum f sc)) (unat (ss_alloc_p (front_sum f sc))) b n
   \<and> sega (front_sum f sc') = sega (front_sum f sc)
   \<and> unat (ss_alloc_p (front_sum f sc')) = unat (ss_alloc_p (front_sum f sc)) + n
   \<and> superblock sc' = superblock sc"
proof (induction n arbitrary: sc b)
  case 0
  then show ?case by (simp add: rm_events_def)
next
  case (Suc n)
  from Suc.prems obtain sc1 where a: "rm_record sc f b = ok sc1"
    and r: "rm_record_loop n sc1 f (b + 1) = ok sc'"
    by (auto elim!: bndE)
  have ev: "rm_events f g p b (Suc n) = RmRecord f g p b # rm_events f g (Suc p) (b + 1) n" for g p
    unfolding rm_events_def upt_conv_Cons[OF zero_less_Suc] map_Suc_upt[symmetric]
    by (simp add: comp_def add.assoc)
  from Suc.IH[OF r] rm_record_props[OF a] show ?case
    by (simp add: ev)
qed

lemma segment_full_log:
  assumes "segment_full cl sc f = ok sc'"
  shows "if unat (ss_alloc_p (front_sum f sc)) = SEG_SUM_OFF
         then \<exists>g'. io_log sc' = io_log sc @
                 [SumWrite f (sega2sa (sega (front_sum f sc)) + of_nat SEG_SUM_OFF),
                  SegAlloc f g', CleanCheck]
         else sc' = sc"
  using assms
  by (auto simp: segment_full_def seg_sum_write_log elim!: bndE split: if_split_asm
        dest!: seg_alloc_log clean_check_log)

lemma fwd_part_intro:
  assumes "list_all is_flush fl" "fwd_part n (b + 1) (s + 1) rest"
  shows "fwd_part (Suc n) b s (fl @ FwdWrite FD_ACTIVE b s # rest)"
proof -
  have "dropWhile is_flush (fl @ FwdWrite FD_ACTIVE b s # rest) = FwdWrite FD_ACTIVE b s # rest"
    using assms(1) by (simp add: dropWhile_append2 list_all_iff)
  with assms(2) show ?thesis by simp
qed

lemma fwd_part_elim:
  assumes "fwd_part (Suc n) b s l"
  obtains fl rest where "l = fl @ FwdWrite FD_ACTIVE b s # rest" "list_all is_flush fl"
    "fwd_part n (b + 1) (s + 1) rest"
proof -
  from assms obtain rest where d: "dropWhile is_flush l = FwdWrite FD_ACTIVE b s # rest"
    and r: "fwd_part n (b + 1) (s + 1) rest"
    by (auto split: list.splits)
  have "l = takeWhile is_flush l @ FwdWrite FD_ACTIVE b s # rest"
    using takeWhile_dropWhile_id[of is_flush l] d by simp
  moreover have "list_all is_flush (takeWhile is_flush l)"
    by (auto simp: list_all_iff dest: set_takeWhileD)
  ultimately show ?thesis using r that by blast
qed

lemma fwd_loop_log:
  "fwd_loop n sc b s = ok sc' \<Longrightarrow> \<exists>l. io_log sc' = io_log sc @ l \<and> fwd_part n b s l"
proof (induction n arbitrary: sc b s)
  case 0
  then show ?case by simp
next
  case (Suc n)
  from Suc.prems obtain sc1 where a: "file_write_4byte sc FD_ACTIVE b s = ok sc1"
    and r: "fwd_loop n sc1 (b + 1) (s + 1) = ok sc'"
    by (auto elim!: bndE)
  from file_write_4byte_log[OF a] obtain fl where
    fl: "io_log sc1 = io_log sc @ fl @ [FwdWrite FD_ACTIVE b s]" "list_all is_flush fl" by blast
  from Suc.IH[OF r] obtain l where l: "io_log sc' = io_log sc1 @ l" "fwd_part n (b + 1) (s + 1) l"
    by blast
  have "io_log sc' = io_log sc @ (fl @ FwdWrite FD_ACTIVE b s # l)"
    using fl l by simp
  moreover have "fwd_part (Suc n) b s (fl @ FwdWrite FD_ACTIVE b s # l)"
    using fl(2) l(2) by (rule fwd_part_intro)
  ultimately show ?case by blast
qed

lemma rm_events_length [simp]: "length (rm_events f g p b n) = n"
  by (simp add: rm_events_def)

lemma rm_events_no_fwd [simp]: "filter is_fwd (rm_events f g p b n) = []"
  by (simp add: rm_events_def filter_empty_conv)

lemma flush_no_fwd: "list_all is_flush fl \<Longrightarrow> filter is_fwd fl = []"
proof (induction fl)
  case Nil
  then show ?case by simp
next
  case (Cons e fl)
  then show ?case by (cases e) auto
qed

lemma fwd_updates_Suc:
  "fwd_updates b s (Suc n) = FwdWrite FD_ACTIVE b s # fwd_updates (b + 1) (s + 1) n"
  unfolding fwd_updates_def upt_conv_Cons[OF zero_less_Suc] map_Suc_upt[symmetric]
  by (simp add: comp_def add.assoc)

lemma fwd_part_filter: "fwd_part n b s l \<Longrightarrow> filter is_fwd l = fwd_updates b s n"
proof (induction n arbitrary: b s l)
  case 0
  then show ?case by (simp add: fwd_updates_def)
next
  case (Suc n)
  from Suc.prems obtain fl rest where l: "l = fl @ FwdWrite FD_ACTIVE b s # rest"
    and fl: "list_all is_flush fl" and r: "fwd_part n (b + 1) (s + 1) rest"
    by (rule fwd_part_elim)
  from Suc.IH[OF r] flush_no_fwd[OF fl] show ?case
    by (simp add: l fwd_updates_Suc)
qed

text \<open>The events of one round, put together.\<close>

lemma round_events:
  assumes a: "rm_record_loop n (issue_data_write sc sa n payload pos) f ba = ok sc1"
    and b: "segment_full cl sc1 f = ok sc2"
    and c: "fwd_loop n sc2 ba sa = ok sc3"
    and sa: "sa = sega2sa (sega (front_sum f sc)) + ucast (ss_alloc_p (front_sum f sc))"
  shows "\<exists>l. io_log sc3 = io_log sc @ DataWrite sa n (data_ok sc sa n) # l
           \<and> chunk_log f (sega (front_sum f sc)) (unat (ss_alloc_p (front_sum f sc))) ba n
               (DataWrite sa n (data_ok sc sa n) # l)
           \<and> filter is_fwd l = fwd_updates ba sa n"
proof -
  define g where "g = sega (front_sum f sc)"
  define p where "p = unat (ss_alloc_p (front_sum f sc))"
  define D where "D = DataWrite sa n (data_ok sc sa n)"
  have sa': "sa = sega2sa g + of_nat p"
    by (simp add: sa g_def p_def)
  note i = issue_data_write_props
  from rm_record_loop_props[OF a] have
    l1: "io_log sc1 = io_log sc @ D # rm_events f g p ba n"
    and p1: "unat (ss_alloc_p (front_sum f sc1)) = p + n"
    and g1: "sega (front_sum f sc1) = g"
    by (simp_all add: i g_def p_def D_def)
  from fwd_loop_log[OF c] obtain fw where fw: "io_log sc3 = io_log sc2 @ fw" "fwd_part n ba sa fw"
    by blast
  show ?thesis
  proof (cases "p + n = SEG_SUM_OFF")
    case True
    with segment_full_log[OF b] p1 g1 obtain g' where
      "io_log sc2 = io_log sc1 @ [SumWrite f (sega2sa g + of_nat SEG_SUM_OFF), SegAlloc f g', CleanCheck]"
      by auto
    with l1 fw have
      l3: "io_log sc3 = io_log sc @ D # (rm_events f g p ba n @
             [SumWrite f (sega2sa g + of_nat SEG_SUM_OFF), SegAlloc f g', CleanCheck] @ fw)"
      by simp
    have "chunk_log f g p ba n (D # (rm_events f g p ba n @
             [SumWrite f (sega2sa g + of_nat SEG_SUM_OFF), SegAlloc f g', CleanCheck] @ fw))"
      using True fw(2) by (simp add: chunk_log_def D_def sa' seg_full_part_def)
    moreover have "filter is_fwd (rm_events f g p ba n @
             [SumWrite f (sega2sa g + of_nat SEG_SUM_OFF), SegAlloc f g', CleanCheck] @ fw)
           = fwd_updates ba sa n"
      using fwd_part_filter[OF fw(2)] by (simp add: rm_events_no_fwd)
    ultimately show ?thesis
      using l3 unfolding g_def[symmetric] p_def[symmetric] D_def[symmetric]
      by blast
  next
    case False
    with segment_full_log[OF b] p1 have "sc2 = sc1" by auto
    with l1 fw have l3: "io_log sc3 = io_log sc @ D # (rm_events f g p ba n @ fw)"
      by simp
    have "chunk_log f g p ba n (D # (rm_events f g p ba n @ fw))"
      using False fw(2) by (simp add: chunk_log_def D_def sa')
    moreover have "filter is_fwd (rm_events f g p ba n @ fw) = fwd_updates ba sa n"
      using fwd_part_filter[OF fw(2)] by (simp add: rm_events_no_fwd)
    ultimately show ?thesis
      using l3 unfolding g_def[symmetric] p_def[symmetric] D_def[symmetric]
      by blast
  qed
qed

lemma write_round_events:
  assumes "write_round cl f payload sc ba sec_remain pos = ok (count, sc')"
  shows "\<exists>l. io_log sc' = io_log sc @
                 DataWrite (sega2sa (sega (front_sum f sc)) + ucast (ss_alloc_p (front_sum f sc)))
                   (nat count)
                   (data_ok sc (sega2sa (sega (front_sum f sc)) + ucast (ss_alloc_p (front_sum f sc)))
                      (nat count)) # l
           \<and> chunk_log f (sega (front_sum f sc)) (unat (ss_alloc_p (front_sum f sc))) ba (nat count)
               (DataWrite (sega2sa (sega (front_sum f sc)) + ucast (ss_alloc_p (front_sum f sc)))
                   (nat count)
                   (data_ok sc (sega2sa (sega (front_sum f sc)) + ucast (ss_alloc_p (front_sum f sc)))
                      (nat count)) # l)
           \<and> filter is_fwd l = fwd_updates ba
                 (sega2sa (sega (front_sum f sc)) + ucast (ss_alloc_p (front_sum f sc))) (nat count)"
proof -
  define sa where "sa = sega2sa (sega (front_sum f sc)) + ucast (ss_alloc_p (front_sum f sc))"
  from assms obtain sc1 sc2 where
    a: "rm_record_loop (nat count) (issue_data_write sc sa (nat count) payload pos) f ba = ok sc1"
    and b: "segment_full cl sc1 f = ok sc2"
    and c: "fwd_loop (nat count) sc2 ba sa = ok sc'"
    unfolding write_round_def Let_def sa_def[symmetric]
    by (auto elim!: bndE split: if_split_asm)
  from round_events[OF a b c sa_def] show ?thesis
    unfolding sa_def .
qed

lemma write_one_events:
  assumes "logstor_write_one cl sc ba f payload = ok (r, sc')"
  shows "r = 0 \<and> (\<exists>l. io_log sc' = io_log sc @
                 DataWrite (sega2sa (sega (front_sum f sc)) + ucast (ss_alloc_p (front_sum f sc)))
                   1
                   (data_ok sc (sega2sa (sega (front_sum f sc)) + ucast (ss_alloc_p (front_sum f sc)))
                      1) # l
           \<and> chunk_log f (sega (front_sum f sc)) (unat (ss_alloc_p (front_sum f sc))) ba 1
               (DataWrite (sega2sa (sega (front_sum f sc)) + ucast (ss_alloc_p (front_sum f sc)))
                   1
                   (data_ok sc (sega2sa (sega (front_sum f sc)) + ucast (ss_alloc_p (front_sum f sc)))
                      1) # l)
           \<and> filter is_fwd l = fwd_updates ba
                 (sega2sa (sega (front_sum f sc)) + ucast (ss_alloc_p (front_sum f sc))) 1)"
proof -
  define sa where "sa = sega2sa (sega (front_sum f sc)) + ucast (ss_alloc_p (front_sum f sc))"
  from assms obtain sc1 sc2 where
    a: "rm_record (issue_data_write sc sa 1 payload 0) f ba = ok sc1"
    and b: "segment_full cl sc1 f = ok sc2"
    and c: "file_write_4byte sc2 FD_ACTIVE ba sa = ok sc'"
    and r: "r = 0"
    unfolding logstor_write_one_def Let_def sa_def[symmetric]
    by (auto elim!: bndE MY_ASSERT_okE)
  from a have a': "rm_record_loop 1 (issue_data_write sc sa 1 payload 0) f ba = ok sc1"
    by simp
  from c have c': "fwd_loop 1 sc2 ba sa = ok sc'"
    by simp
  from round_events[OF a' b c' sa_def] r show ?thesis
    unfolding sa_def by simp
qed

section \<open>No forward-map update before its reverse-map entry\<close>

lemma recorded_mono: "recorded seen b s \<Longrightarrow> recorded (pre @ seen @ post) b s"
  by (auto simp: recorded_def list_ex_iff)

lemma order_ok_append:
  "order_ok seen (l1 @ l2) \<longleftrightarrow> order_ok seen l1 \<and> order_ok (seen @ l1) l2"
  by (induction l1 arbitrary: seen) auto

lemma order_ok_flush: "list_all is_flush fl \<Longrightarrow> order_ok seen fl"
proof (induction fl arbitrary: seen)
  case Nil
  then show ?case by simp
next
  case (Cons e fl)
  then show ?case by (cases e) auto
qed

lemma rm_events_Suc:
  "rm_events f g p b (Suc n) = RmRecord f g p b # rm_events f g (Suc p) (b + 1) n"
  unfolding rm_events_def upt_conv_Cons[OF zero_less_Suc] map_Suc_upt[symmetric]
  by (simp add: comp_def add.assoc)

lemma order_ok_rm: "order_ok seen (rm_events f g p b n)"
proof (induction n arbitrary: seen p b)
  case 0
  then show ?case by (simp add: rm_events_def)
next
  case (Suc n)
  show ?case
    unfolding rm_events_Suc by (simp add: Suc.IH)
qed

lemma order_ok_fwd:
  "fwd_part n b s l \<Longrightarrow> (\<And>i. i < n \<Longrightarrow> recorded seen (b + of_nat i) (s + of_nat i)) \<Longrightarrow>
   order_ok seen l"
proof (induction n arbitrary: b s l seen)
  case 0
  then show ?case by simp
next
  case (Suc n)
  from Suc.prems(1) obtain fl rest where l: "l = fl @ FwdWrite FD_ACTIVE b s # rest"
    and fl: "list_all is_flush fl" and r: "fwd_part n (b + 1) (s + 1) rest"
    by (rule fwd_part_elim)
  have r0: "recorded (seen @ fl) b s"
    using Suc.prems(2)[of 0] recorded_mono[of seen b s "[]" fl] by simp
  have "order_ok ((seen @ fl) @ [FwdWrite FD_ACTIVE b s]) rest"
  proof (rule Suc.IH[OF r])
    fix i assume "i < n"
    then have "recorded seen (b + of_nat (Suc i)) (s + of_nat (Suc i))"
      by (intro Suc.prems(2)) simp
    then have "recorded seen (b + 1 + of_nat i) (s + 1 + of_nat i)"
      by (simp add: add.assoc)
    from recorded_mono[OF this, of "[]" "fl @ [FwdWrite FD_ACTIVE b s]"]
    show "recorded ((seen @ fl) @ [FwdWrite FD_ACTIVE b s]) (b + 1 + of_nat i) (s + 1 + of_nat i)"
      by simp
  qed
  with r0 fl show ?case
    by (simp add: l order_ok_append order_ok_flush)
qed

lemma recorded_rm:
  "i < n \<Longrightarrow> recorded (pre @ rm_events f g p b n @ post) (b + of_nat i) (sega2sa g + of_nat p + of_nat i)"
proof -
  assume "i < n"
  then have "RmRecord f g (p + i) (b + of_nat i) \<in> set (rm_events f g p b n)"
    by (auto simp: rm_events_def)
  then show ?thesis
    by (auto simp: recorded_def list_ex_iff add.assoc intro!: bexI[where x = "RmRecord f g (p + i) (b + of_nat i)"])
qed

lemma chunk_log_order:
  assumes "chunk_log f g p b n l"
  shows "order_ok seen l"
proof -
  define s where "s = sega2sa g + of_nat p"
  from assms obtain e l1 where l: "l = e # l1" and e: "is_data_write s n e"
    and n: "n \<le> length l1" and t: "take n l1 = rm_events f g p b n"
    and rest: "if p + n = SEG_SUM_OFF
             then seg_full_part f (sega2sa g + of_nat SEG_SUM_OFF) (take 3 (drop n l1))
                  \<and> fwd_part n b s (drop (n + 3) l1)
             else fwd_part n b s (drop n l1)"
    unfolding chunk_log_def s_def by (auto split: list.splits)
  from e obtain r where e': "e = DataWrite s n r" by (cases e) auto
  have l1: "rm_events f g p b n @ drop n l1 = l1"
    using append_take_drop_id[of n l1] t by simp
  obtain mid fw where d: "drop n l1 = mid @ fw" and fw: "fwd_part n b s fw"
    and mid: "\<And>sn. order_ok sn mid"
  proof (cases "p + n = SEG_SUM_OFF")
    case True
    define m where "m = take 3 (drop n l1)"
    from True rest have sf: "seg_full_part f (sega2sa g + of_nat SEG_SUM_OFF) m"
      and f2: "fwd_part n b s (drop (n + 3) l1)" by (simp_all add: m_def)
    have d3: "drop n l1 = m @ drop (n + 3) l1"
      unfolding m_def using append_take_drop_id[of 3 "drop n l1"] by (simp add: add.commute)
    from sf have "length m = 3" by (simp add: seg_full_part_def)
    then obtain a x c where abc: "m = [a, x, c]"
      by (auto simp: numeral_3_eq_3 length_Suc_conv)
    with sf have m: "m = [SumWrite f (sega2sa g + of_nat SEG_SUM_OFF), x, CleanCheck]"
      and x: "is_seg_alloc f x"
      by (simp_all add: seg_full_part_def)
    from x obtain g' where "x = SegAlloc f g'" by (cases x) auto
    with m have "order_ok sn m" for sn by simp
    with d3 f2 show ?thesis using that by blast
  next
    case False
    with rest have "drop n l1 = [] @ drop n l1" "fwd_part n b s (drop n l1)" by simp_all
    then show ?thesis using that[of "[]" "drop n l1"] by simp
  qed
  have "order_ok (seen @ [DataWrite s n r] @ rm_events f g p b n @ mid) fw"
  proof (rule order_ok_fwd[OF fw])
    fix i assume "i < n"
    from recorded_rm[OF this, of "seen @ [DataWrite s n r]" f g p b mid]
    show "recorded (seen @ [DataWrite s n r] @ rm_events f g p b n @ mid) (b + of_nat i) (s + of_nat i)"
      by (simp add: s_def)
  qed
  then have "order_ok seen (DataWrite s n r # rm_events f g p b n @ mid @ fw)"
    by (simp add: order_ok_append order_ok_rm mid)
  moreover have "rm_events f g p b n @ mid @ fw = l1"
    using l1 d by simp
  ultimately show ?thesis by (simp add: l e')
qed

lemma write_round_chunk:
  assumes "write_round cl f payload sc ba sec_remain pos = ok (count, sc')"
  shows "\<exists>l. io_log sc' = io_log sc @ l
           \<and> chunk_log f (sega (front_sum f sc)) (unat (ss_alloc_p (front_sum f sc))) ba (nat count) l"
  using write_round_events[OF assms] by blast

lemma write_one_chunk:
  assumes "logstor_write_one cl sc ba f payload = ok (r, sc')"
  shows "\<exists>l. io_log sc' = io_log sc @ l
           \<and> chunk_log f (sega (front_sum f sc)) (unat (ss_alloc_p (front_sum f sc))) ba 1 l"
  using write_one_events[OF assms] by blast

lemma new_events_app: "io_log sc' = io_log sc @ l \<Longrightarrow> new_events sc sc' = l"
  by (simp add: new_events_def)

lemma write_loop_order:
  assumes "write_loop cl f payload sc ba n pos = ok sc'"
  shows "\<exists>l. io_log sc' = io_log sc @ l \<and> (\<forall>seen. order_ok seen l)"
proof -
  let ?P = "\<lambda>(cl :: softc \<Rightarrow> softc res) (f :: front) (payload :: nat \<Rightarrow> sector) (sc :: softc)
              (ba :: u32) (n :: int) (pos :: nat) (r :: error + softc).
              case r of Inl e \<Rightarrow> True
              | Inr sc' \<Rightarrow> \<exists>l. io_log sc' = io_log sc @ l \<and> (\<forall>seen. order_ok seen l)"
  have "?P cl f payload sc ba n pos (Inr sc')"
  proof (rule write_loop.raw_induct[where P = ?P, OF _ assms[unfolded ok_def]])
    fix loop cl f payload sc ba sec_remain pos r
    assume IH: "\<And>cl f payload sc ba sec_remain pos r.
                  loop cl f payload sc ba sec_remain pos = Some r \<Longrightarrow>
                  ?P cl f payload sc ba sec_remain pos r"
    assume step: "(if 0 < sec_remain
      then case write_round cl f payload sc ba sec_remain pos of None \<Rightarrow> None
           | Some (Inl e) \<Rightarrow> Some (Inl e)
           | Some (Inr (count, sc3)) \<Rightarrow>
               loop cl f payload sc3 (ba + word_of_int count)
                (sec_remain - count) (pos + nat count)
      else ok sc) = Some r"
    show "?P cl f payload sc ba sec_remain pos r"
    proof (cases r)
      case (Inl e)
      then show ?thesis by simp
    next
      case (Inr s')
      show ?thesis
      proof (cases "0 < sec_remain")
        case False
        with step Inr have "s' = sc" by (simp add: ok_def)
        with Inr show ?thesis by simp
      next
        case True
        with step Inr obtain count sc3 where
          w: "write_round cl f payload sc ba sec_remain pos = ok (count, sc3)"
          and l: "loop cl f payload sc3 (ba + word_of_int count) (sec_remain - count)
                    (pos + nat count) = Some (Inr s')"
          by (auto simp: ok_def split: option.splits sum.splits)
        from write_round_chunk[OF w] obtain l1 where
          l1: "io_log sc3 = io_log sc @ l1"
          and c: "chunk_log f (sega (front_sum f sc)) (unat (ss_alloc_p (front_sum f sc))) ba (nat count) l1"
          by blast
        from IH[OF l] obtain l2 where l2: "io_log s' = io_log sc3 @ l2" "\<forall>seen. order_ok seen l2"
          by auto
        have "\<forall>seen. order_ok seen (l1 @ l2)"
          using chunk_log_order[OF c] l2(2) by (simp add: order_ok_append)
        with l1 l2(1) Inr show ?thesis by auto
      qed
    qed
  qed
  then show ?thesis by simp
qed

lemma logstor_write_order:
  assumes "logstor_write cl sc ba sz payload = ok (r, sc')"
  shows "r = 0 \<and> (\<exists>l. io_log sc' = io_log sc @ l \<and> order_ok [] l)"
proof (cases "sz = 1")
  case True
  with assms have w: "logstor_write_one cl sc ba Hot payload = ok (r, sc')"
    by (simp add: logstor_write_def)
  from write_one_events[OF w] have r: "r = 0" by simp
  from write_one_chunk[OF w] chunk_log_order r show ?thesis by blast
next
  case False
  with assms obtain sc1 where w: "write_loop cl Hot payload sc ba sz 0 = ok sc1"
    and r: "r = 0" "sc' = sc1"
    by (auto simp: logstor_write_def logstor_write_multi_def elim!: bndE MY_ASSERT_okE)
  from write_loop_order[OF w] r show ?thesis by auto
qed

text \<open>
  C1. In the write path, for every block of a request the steps happen in this order.
  \<^verbatim>\<open>_logstor_write_one\<close>, and every round of the loop of \<^verbatim>\<open>_logstor_write\<close> for the \<^verbatim>\<open>count\<close>
  blocks it handles, add to the log, when they return, exactly the shape \<open>chunk_log\<close>: the
  data write issued at \<^verbatim>\<open>sa = sega2sa(sega) + ss_alloc_p\<close> of the front; then the reverse-map
  entries \<^verbatim>\<open>ss_rm[ss_alloc_p] = ba\<close>, with \<^verbatim>\<open>ss_alloc_p\<close> advanced, block by block; then, exactly
  when \<^verbatim>\<open>ss_alloc_p\<close> reached \<^verbatim>\<open>SEG_SUM_OFF\<close>, the summary write, the allocation of a new
  segment and \<^verbatim>\<open>clean_check\<close>; and only after all of these the forward-map updates
  \<^verbatim>\<open>file_write_4byte(FD_ACTIVE, ba, sa)\<close>, with nothing between them but the writes of the
  cache. In the log of a whole request no forward-map update of a block comes before the
  recording of that block in the reverse map.
\<close>

theorem write_path_order:
  "(logstor_write_one cl sc ba f payload = ok (r, sc') \<longrightarrow>
      io_log sc' = io_log sc @ new_events sc sc'
      \<and> chunk_log f (sega (front_sum f sc)) (unat (ss_alloc_p (front_sum f sc))) ba 1
            (new_events sc sc'))
   \<and> (write_round cl f payload sc ba sec_remain pos = ok (count, sc') \<longrightarrow>
      io_log sc' = io_log sc @ new_events sc sc'
      \<and> chunk_log f (sega (front_sum f sc)) (unat (ss_alloc_p (front_sum f sc))) ba (nat count)
            (new_events sc sc'))
   \<and> (logstor_write cl sc ba sz payload = ok (r, sc') \<longrightarrow>
      io_log sc' = io_log sc @ new_events sc sc' \<and> order_ok [] (new_events sc sc'))"
proof (intro conjI impI)
  assume a: "logstor_write_one cl sc ba f payload = ok (r, sc')"
  from write_one_chunk[OF a] obtain l where l: "io_log sc' = io_log sc @ l"
    "chunk_log f (sega (front_sum f sc)) (unat (ss_alloc_p (front_sum f sc))) ba 1 l" by blast
  then show "io_log sc' = io_log sc @ new_events sc sc'"
    "chunk_log f (sega (front_sum f sc)) (unat (ss_alloc_p (front_sum f sc))) ba 1 (new_events sc sc')"
    by (simp_all add: new_events_app)
next
  assume a: "write_round cl f payload sc ba sec_remain pos = ok (count, sc')"
  from write_round_chunk[OF a] obtain l where l: "io_log sc' = io_log sc @ l"
    "chunk_log f (sega (front_sum f sc)) (unat (ss_alloc_p (front_sum f sc))) ba (nat count) l" by blast
  then show "io_log sc' = io_log sc @ new_events sc sc'"
    "chunk_log f (sega (front_sum f sc)) (unat (ss_alloc_p (front_sum f sc))) ba (nat count) (new_events sc sc')"
    by (simp_all add: new_events_app)
next
  assume a: "logstor_write cl sc ba sz payload = ok (r, sc')"
  from logstor_write_order[OF a] obtain l where l: "io_log sc' = io_log sc @ l" "order_ok [] l" by blast
  then show "io_log sc' = io_log sc @ new_events sc sc'" "order_ok [] (new_events sc sc')"
    by (simp_all add: new_events_app)
qed

text \<open>
  C9 (amended). \<^verbatim>\<open>logstor_write\<close> does not look at the outcome of the backing-device write
  of the data sectors. Whenever it returns it returns 0; and whenever
  \<^verbatim>\<open>_logstor_write_one\<close> or a round of \<^verbatim>\<open>_logstor_write\<close> returns, the first thing it did was
  to issue the data write at the sector address of the front, with whatever outcome the
  device gave (\<open>data_ok\<close>: success, or failure with Io), and the forward-map updates it
  made are those of all its block addresses to the sectors of that write. So on an Io
  error the request does not fail and the forward map is changed.
\<close>

theorem write_ignores_io_outcome:
  "(logstor_write cl sc ba sz payload = ok (r, sc') \<longrightarrow> r = 0)
   \<and> (logstor_write_one cl sc ba f payload = ok (r, sc') \<longrightarrow>
        r = 0
        \<and> hd (new_events sc sc') = DataWrite (front_sa f sc) 1 (data_ok sc (front_sa f sc) 1)
        \<and> filter is_fwd (new_events sc sc') = fwd_updates ba (front_sa f sc) 1)
   \<and> (write_round cl f payload sc ba sec_remain pos = ok (count, sc') \<longrightarrow>
        hd (new_events sc sc')
          = DataWrite (front_sa f sc) (nat count) (data_ok sc (front_sa f sc) (nat count))
        \<and> filter is_fwd (new_events sc sc') = fwd_updates ba (front_sa f sc) (nat count))"
proof (intro conjI impI)
  assume "logstor_write cl sc ba sz payload = ok (r, sc')"
  from logstor_write_order[OF this] show "r = 0" by simp
next
  assume a: "logstor_write_one cl sc ba f payload = ok (r, sc')"
  from write_one_events[OF a] obtain l where r: "r = 0"
    and l: "io_log sc' = io_log sc @ DataWrite (front_sa f sc) 1 (data_ok sc (front_sa f sc) 1) # l"
    and f: "filter is_fwd l = fwd_updates ba (front_sa f sc) 1"
    unfolding front_sa_def by blast
  from r show "r = 0" .
  from l show "hd (new_events sc sc') = DataWrite (front_sa f sc) 1 (data_ok sc (front_sa f sc) 1)"
    by (simp add: new_events_def)
  from l f show "filter is_fwd (new_events sc sc') = fwd_updates ba (front_sa f sc) 1"
    by (simp add: new_events_def)
next
  assume a: "write_round cl f payload sc ba sec_remain pos = ok (count, sc')"
  from write_round_events[OF a] obtain l where
    l: "io_log sc' = io_log sc @ DataWrite (front_sa f sc) (nat count)
                        (data_ok sc (front_sa f sc) (nat count)) # l"
    and f: "filter is_fwd l = fwd_updates ba (front_sa f sc) (nat count)"
    unfolding front_sa_def by blast
  from l show "hd (new_events sc sc')
          = DataWrite (front_sa f sc) (nat count) (data_ok sc (front_sa f sc) (nat count))"
    by (simp add: new_events_def)
  from l f show "filter is_fwd (new_events sc sc') = fwd_updates ba (front_sa f sc) (nat count)"
    by (simp add: new_events_def)
qed

section \<open>Writes on concrete states\<close>

lemma wr01_one: "bnd wr01 (one_events 5) =
    ok (0, [DataWrite 2050 1 True, RmRecord Hot 2 2 5, FwdWrite FD_ACTIVE 5 2050])"
  apply (simp add: wr01_def write_defs eval_defs upt_rec cong: bnd_weak_cong)
  apply (simp add: one_events_def)
  apply (simp add: write_defs eval_defs new_events_def upt_rec cong: bnd_weak_cong)
  done

lemma wr01_one_full: "bnd (res_map hot_full wr01) (one_events 5) =
    ok (0, [DataWrite 3070 1 True, RmRecord Hot 2 1022 5, SumWrite Hot 3071, SegAlloc Hot 3,
            CleanCheck, FwdWrite FD_ACTIVE 5 3070])"
  apply (simp add: wr01_def write_defs eval_defs upt_rec hot_full_def cong: bnd_weak_cong)
  apply (simp add: one_events_def)
  apply (simp add: write_defs eval_defs new_events_def seg_sum_write_def upt_rec cong: bnd_weak_cong)
  done

lemma wr01_round: "bnd wr01 (round_events_of 5 2) =
    ok (2, [DataWrite 2050 2 True, RmRecord Hot 2 2 5, RmRecord Hot 2 3 6,
            FwdWrite FD_ACTIVE 5 2050, FwdWrite FD_ACTIVE 6 2051])"
  apply (simp add: wr01_def write_defs eval_defs upt_rec cong: bnd_weak_cong)
  apply (simp add: round_events_of_def)
  apply (simp add: write_defs eval_defs new_events_def upt_rec cong: bnd_weak_cong)
  done

lemma wr01_write: "bnd wr01 (write_events 5 2) =
    ok (0, [DataWrite 2050 2 True, RmRecord Hot 2 2 5, RmRecord Hot 2 3 6,
            FwdWrite FD_ACTIVE 5 2050, FwdWrite FD_ACTIVE 6 2051])"
  apply (simp add: wr01_def write_defs eval_defs upt_rec cong: bnd_weak_cong)
  apply (simp add: write_events_def)
  apply (simp add: write_defs eval_defs new_events_def upt_rec cong: bnd_weak_cong)
  done

lemma wr01_front:
  "res_map (\<lambda>s. (sega (seg_sum_hot s), unat (ss_alloc_p (seg_sum_hot s)))) wr01 = ok (2, 2)"
  by (simp add: wr01_def write_defs eval_defs upt_rec)

lemma res_map_ok: "res_map g m = ok y \<Longrightarrow> \<exists>x. m = ok x \<and> g x = y"
  by (auto simp: res_map_def bnd_eq_ok)

text \<open>
  C1 on the state after blocks 0 and 1 were written: a single-block write of block 5, the
  same with one sector left in the hot segment (the summary is written, segment 3
  allocated and \<^verbatim>\<open>clean_check\<close> run before the forward map is updated), a round of two
  blocks, and a request of two blocks.
\<close>

theorem write_path_order_witness:
  "one_events 5 st01 = ok (0, [DataWrite 2050 1 True, RmRecord Hot 2 2 5, FwdWrite FD_ACTIVE 5 2050])
   \<and> chunk_log Hot 2 2 5 1 [DataWrite 2050 1 True, RmRecord Hot 2 2 5, FwdWrite FD_ACTIVE 5 2050]
   \<and> one_events 5 (hot_full st01) =
        ok (0, [DataWrite 3070 1 True, RmRecord Hot 2 1022 5, SumWrite Hot 3071, SegAlloc Hot 3,
                CleanCheck, FwdWrite FD_ACTIVE 5 3070])
   \<and> chunk_log Hot 2 1022 5 1
        [DataWrite 3070 1 True, RmRecord Hot 2 1022 5, SumWrite Hot 3071, SegAlloc Hot 3,
         CleanCheck, FwdWrite FD_ACTIVE 5 3070]
   \<and> round_events_of 5 2 st01 =
        ok (2, [DataWrite 2050 2 True, RmRecord Hot 2 2 5, RmRecord Hot 2 3 6,
                FwdWrite FD_ACTIVE 5 2050, FwdWrite FD_ACTIVE 6 2051])
   \<and> chunk_log Hot 2 2 5 2
        [DataWrite 2050 2 True, RmRecord Hot 2 2 5, RmRecord Hot 2 3 6,
         FwdWrite FD_ACTIVE 5 2050, FwdWrite FD_ACTIVE 6 2051]
   \<and> write_events 5 2 st01 =
        ok (0, [DataWrite 2050 2 True, RmRecord Hot 2 2 5, RmRecord Hot 2 3 6,
                FwdWrite FD_ACTIVE 5 2050, FwdWrite FD_ACTIVE 6 2051])
   \<and> order_ok [] [DataWrite 2050 2 True, RmRecord Hot 2 2 5, RmRecord Hot 2 3 6,
                   FwdWrite FD_ACTIVE 5 2050, FwdWrite FD_ACTIVE 6 2051]"
proof -
  define L1 where "L1 = [DataWrite 2050 1 True, RmRecord Hot 2 2 5, FwdWrite FD_ACTIVE 5 2050]"
  define L2 where "L2 = [DataWrite 3070 1 True, RmRecord Hot 2 1022 5, SumWrite Hot 3071,
                         SegAlloc Hot 3, CleanCheck, FwdWrite FD_ACTIVE 5 3070]"
  define L3 where "L3 = [DataWrite 2050 2 True, RmRecord Hot 2 2 5, RmRecord Hot 2 3 6,
                         FwdWrite FD_ACTIVE 5 2050, FwdWrite FD_ACTIVE 6 2051]"
  have fr: "sega (front_sum Hot st01) = 2" "unat (ss_alloc_p (front_sum Hot st01)) = 2"
    using wr01_front by (simp_all add: wr01_ok res_map_def front_sum_def)
  have frf: "sega (front_sum Hot (hot_full st01)) = 2"
    "unat (ss_alloc_p (front_sum Hot (hot_full st01))) = 1022"
    using fr by (simp_all add: hot_full_def front_sum_def)
  have e1: "one_events 5 st01 = ok (0, L1)"
    using wr01_one by (simp add: wr01_ok L1_def)
  have e2: "one_events 5 (hot_full st01) = ok (0, L2)"
    using wr01_one_full by (simp add: wr01_ok res_map_def L2_def)
  have e3: "round_events_of 5 2 st01 = ok (2, L3)"
    using wr01_round by (simp add: wr01_ok L3_def)
  have e4: "write_events 5 2 st01 = ok (0, L3)"
    using wr01_write by (simp add: wr01_ok L3_def)
  from res_map_ok[OF e1[unfolded one_events_def]] obtain s1 where
    w1: "logstor_write_one no_cleaner st01 5 Hot zero_payload = ok (0, s1)"
    and n1: "new_events st01 s1 = L1"
    by (metis fst_conv snd_conv prod.collapse prod.inject)
  from write_path_order[where cl = no_cleaner and sc = st01 and ba = 5 and f = Hot
      and payload = zero_payload and r = 0 and sc' = s1, THEN conjunct1, THEN mp, OF w1]
  have c1: "chunk_log Hot 2 2 5 1 L1"
    by (simp add: fr n1)
  from res_map_ok[OF e2[unfolded one_events_def]] obtain s2 where
    w2: "logstor_write_one no_cleaner (hot_full st01) 5 Hot zero_payload = ok (0, s2)"
    and n2: "new_events (hot_full st01) s2 = L2"
    by (metis fst_conv snd_conv prod.collapse prod.inject)
  from write_path_order[where cl = no_cleaner and sc = "hot_full st01" and ba = 5 and f = Hot
      and payload = zero_payload and r = 0 and sc' = s2, THEN conjunct1, THEN mp, OF w2]
  have c2: "chunk_log Hot 2 1022 5 1 L2"
    by (simp add: frf n2)
  from res_map_ok[OF e3[unfolded round_events_of_def]] obtain s3 where
    w3: "write_round no_cleaner Hot zero_payload st01 5 2 0 = ok (2, s3)"
    and n3: "new_events st01 s3 = L3"
    by (metis fst_conv snd_conv prod.collapse prod.inject)
  from write_path_order[where cl = no_cleaner and sc = st01 and ba = 5 and f = Hot
      and payload = zero_payload and sec_remain = 2 and pos = 0 and count = 2 and sc' = s3,
      THEN conjunct2, THEN conjunct1, THEN mp, OF w3]
  have c3: "chunk_log Hot 2 2 5 2 L3"
    by (simp add: fr n3)
  from res_map_ok[OF e4[unfolded write_events_def]] obtain s4 where
    w4: "logstor_write no_cleaner st01 5 2 zero_payload = ok (0, s4)"
    and n4: "new_events st01 s4 = L3"
    by (metis fst_conv snd_conv prod.collapse prod.inject)
  from write_path_order[where cl = no_cleaner and sc = st01 and ba = 5
      and payload = zero_payload and sz = 2 and r = 0 and sc' = s4,
      THEN conjunct2, THEN conjunct2, THEN mp, OF w4]
  have c4: "order_ok [] L3"
    by (simp add: n4)
  from e1 e2 e3 e4 c1 c2 c3 c4 show ?thesis
    unfolding L1_def L2_def L3_def by blast
qed


lemma opf_ok: "opf = ok stf"
proof -
  have "\<exists>s. opf = ok s"
    by (simp add: opf_def write_defs eval_defs dev20f_def fault_2048_def upt_rec)
  then obtain s where s: "opf = ok s" by blast
  show ?thesis unfolding stf_def s by simp
qed

lemma opf_front:
  "res_map (\<lambda>s. (sega (seg_sum_hot s), unat (ss_alloc_p (seg_sum_hot s)), wr_fault s 2048)) opf
     = ok (2, 0, True)"
  by (simp add: opf_def write_defs eval_defs dev20f_def fault_2048_def upt_rec)

lemma opf_before: "bnd opf (fm_lookup 0) = ok 0"
  apply (simp add: opf_def write_defs eval_defs dev20f_def fault_2048_def upt_rec cong: bnd_weak_cong)
  apply (simp add: fm_lookup_def)
  apply (simp add: eval_defs fault_2048_def EIO_def upt_rec cong: bnd_weak_cong)
  done

lemma opf_write: "bnd opf (write_events 0 1) =
    ok (0, [DataWrite 2048 1 False, RmRecord Hot 2 0 0, FwdWrite FD_ACTIVE 0 2048])"
  apply (simp add: opf_def write_defs eval_defs dev20f_def fault_2048_def upt_rec cong: bnd_weak_cong)
  apply (simp add: write_events_def)
  apply (simp add: write_defs eval_defs new_events_def fault_2048_def EIO_def upt_rec cong: bnd_weak_cong)
  done

lemma opf_one: "bnd opf (one_events 0) =
    ok (0, [DataWrite 2048 1 False, RmRecord Hot 2 0 0, FwdWrite FD_ACTIVE 0 2048])"
  apply (simp add: opf_def write_defs eval_defs dev20f_def fault_2048_def upt_rec cong: bnd_weak_cong)
  apply (simp add: one_events_def)
  apply (simp add: write_defs eval_defs new_events_def fault_2048_def EIO_def upt_rec cong: bnd_weak_cong)
  done

lemma opf_round: "bnd opf (round_events_of 0 2) =
    ok (2, [DataWrite 2048 2 False, RmRecord Hot 2 0 0, RmRecord Hot 2 1 1,
            FwdWrite FD_ACTIVE 0 2048, FwdWrite FD_ACTIVE 1 2049])"
  apply (simp add: opf_def write_defs eval_defs dev20f_def fault_2048_def upt_rec cong: bnd_weak_cong)
  apply (simp add: round_events_of_def)
  apply (simp add: write_defs eval_defs new_events_def fault_2048_def EIO_def upt_rec cong: bnd_weak_cong)
  done

lemma opf_after: "bnd (bnd opf (write_blocks 0 1)) (fm_lookup 0) = ok 2048"
  apply (simp add: opf_def write_defs eval_defs dev20f_def fault_2048_def upt_rec cong: bnd_weak_cong)
  apply (simp add: fm_lookup_def)
  apply (simp add: eval_defs fault_2048_def EIO_def upt_rec cong: bnd_weak_cong)
  done

text \<open>
  C9 (amended) on the device whose sector 2048 fails: the data write of block 0, and of
  blocks 0 and 1, fails, and the forward-map updates are made all the same.
\<close>

theorem write_ignores_io_outcome_witness:
  "one_events 0 stf = ok (0, [DataWrite 2048 1 False, RmRecord Hot 2 0 0, FwdWrite FD_ACTIVE 0 2048])
   \<and> front_sa Hot stf = 2048 \<and> \<not> data_ok stf 2048 1
   \<and> fwd_updates 0 2048 1 = [FwdWrite FD_ACTIVE 0 2048]
   \<and> round_events_of 0 2 stf =
        ok (2, [DataWrite 2048 2 False, RmRecord Hot 2 0 0, RmRecord Hot 2 1 1,
                FwdWrite FD_ACTIVE 0 2048, FwdWrite FD_ACTIVE 1 2049])
   \<and> \<not> data_ok stf 2048 2
   \<and> fwd_updates 0 2048 2 = [FwdWrite FD_ACTIVE 0 2048, FwdWrite FD_ACTIVE 1 2049]
   \<and> write_events 0 1 stf =
        ok (0, [DataWrite 2048 1 False, RmRecord Hot 2 0 0, FwdWrite FD_ACTIVE 0 2048])"
proof -
  define L1 where "L1 = [DataWrite 2048 1 False, RmRecord Hot 2 0 0, FwdWrite FD_ACTIVE 0 2048]"
  define L2 where "L2 = [DataWrite 2048 2 False, RmRecord Hot 2 0 0, RmRecord Hot 2 1 1,
                         FwdWrite FD_ACTIVE 0 2048, FwdWrite FD_ACTIVE 1 2049]"
  have e1: "one_events 0 stf = ok (0, L1)"
    using opf_one by (simp add: opf_ok L1_def)
  have e2: "round_events_of 0 2 stf = ok (2, L2)"
    using opf_round by (simp add: opf_ok L2_def)
  have e3: "write_events 0 1 stf = ok (0, L1)"
    using opf_write by (simp add: opf_ok L1_def)
  from res_map_ok[OF e1[unfolded one_events_def]] obtain s1 where
    w1: "logstor_write_one no_cleaner stf 0 Hot zero_payload = ok (0, s1)"
    and n1: "new_events stf s1 = L1"
    by (metis fst_conv snd_conv prod.collapse prod.inject)
  from write_ignores_io_outcome[where cl = no_cleaner and sc = stf and ba = 0 and f = Hot
      and payload = zero_payload and r = 0 and sc' = s1, THEN conjunct2, THEN conjunct1, THEN mp, OF w1]
  have h1: "hd L1 = DataWrite (front_sa Hot stf) 1 (data_ok stf (front_sa Hot stf) 1)"
    and f1: "filter is_fwd L1 = fwd_updates 0 (front_sa Hot stf) 1"
    by (simp_all add: n1)
  from h1 have sa: "front_sa Hot stf = 2048"
    by (simp add: L1_def)
  from h1 have d1: "\<not> data_ok stf 2048 1"
    unfolding sa by (simp add: L1_def)
  from f1 have u1: "fwd_updates 0 2048 1 = [FwdWrite FD_ACTIVE 0 2048]"
    by (simp add: sa L1_def)
  from res_map_ok[OF e2[unfolded round_events_of_def]] obtain s2 where
    w2: "write_round no_cleaner Hot zero_payload stf 0 2 0 = ok (2, s2)"
    and n2: "new_events stf s2 = L2"
    by (metis fst_conv snd_conv prod.collapse prod.inject)
  from write_ignores_io_outcome[where cl = no_cleaner and sc = stf and ba = 0 and f = Hot
      and payload = zero_payload and sec_remain = 2 and pos = 0 and count = 2 and sc' = s2,
      THEN conjunct2, THEN conjunct2, THEN mp, OF w2]
  have h2: "hd L2 = DataWrite (front_sa Hot stf) (nat 2) (data_ok stf (front_sa Hot stf) (nat 2))"
    and f2: "filter is_fwd L2 = fwd_updates 0 (front_sa Hot stf) (nat 2)"
    by (simp_all add: n2)
  from h2 have d2: "\<not> data_ok stf 2048 2"
    unfolding sa by (simp add: L2_def)
  from f2 have u2: "fwd_updates 0 2048 2 = [FwdWrite FD_ACTIVE 0 2048, FwdWrite FD_ACTIVE 1 2049]"
    by (simp add: sa L2_def)
  from e1 e2 e3 sa d1 d2 u1 u2 show ?thesis
    unfolding L1_def L2_def by blast
qed

text \<open>
  C9 as stated fails: on the device whose sector 2048 fails, the write of block 0 is a
  data write to sector 2048 that fails with Io; the request returns 0, and the
  forward-map entry of block 0, which was \<^verbatim>\<open>SECTOR_NULL\<close> before, is 2048 after it.
\<close>

theorem write_ignores_io_outcome_counterexample:
  "bnd opf (fm_lookup 0) = ok 0
   \<and> bnd opf (write_events 0 1) =
        ok (0, [DataWrite 2048 1 False, RmRecord Hot 2 0 0, FwdWrite FD_ACTIVE 0 2048])
   \<and> bnd (bnd opf (write_blocks 0 1)) (fm_lookup 0) = ok 2048"
  using opf_before opf_write opf_after by simp


end
